theory Spec2Isabelle
  imports Complex_Main "HOL-Library.AList" "HOL-Library.Word"
begin

section \<open>Play-progress tracker (Api/services/stream\_service.py)\<close>

text \<open>
  Byte offsets and sizes are Python integers, modelled as \<open>int\<close>. A covered range is the
  tuple \<open>(start, end)\<close> with both ends inclusive.
\<close>

type_synonym range = "int \<times> int"

text \<open>
  The first loop of \<open>_merge_ranges\<close>. Its state is the list \<open>out\<close>, the flag
  \<open>inserted\<close> and the variables \<open>start\<close> and \<open>end\<close>, which the loop widens when
  it absorbs a range.
\<close>

fun merge_scan ::
  "range list \<Rightarrow> int \<Rightarrow> int \<Rightarrow> bool \<Rightarrow> range list \<Rightarrow> range list \<times> bool \<times> int \<times> int" where
  "merge_scan [] start end inserted out = (out, inserted, start, end)"
| "merge_scan ((a, b) # rs) start end inserted out =
     (if b + 1 < start then merge_scan rs start end inserted (out @ [(a, b)])
      else if end + 1 < a then
        (if \<not> inserted then merge_scan rs start end True (out @ [(start, end)] @ [(a, b)])
         else merge_scan rs start end inserted (out @ [(a, b)]))
      else merge_scan rs (min start a) (max end b) inserted out)"

text \<open>
  The second loop of \<open>_merge_ranges\<close>, over the sorted list: \<open>merged[-1]\<close> is the last
  element of the accumulator.
\<close>

fun merge_coalesce :: "range list \<Rightarrow> range list \<Rightarrow> range list" where
  "merge_coalesce [] merged = merged"
| "merge_coalesce ((a, b) # rs) merged =
     (if merged = [] then merge_coalesce rs (merged @ [(a, b)])
      else
        (case last merged of (la, lb) \<Rightarrow>
          if a \<le> lb + 1 then merge_coalesce rs (butlast merged @ [(la, max lb b)])
          else merge_coalesce rs (merged @ [(a, b)])))"

text \<open>\<open>out.sort(key=lambda x: x[0])\<close> is a stable sort on the start offset.\<close>

definition merge_ranges :: "range list \<Rightarrow> int \<Rightarrow> int \<Rightarrow> range list" where
  "merge_ranges ranges start end =
     (if end < start then ranges
      else if ranges = [] then [(start, end)]
      else
        (case merge_scan ranges start end False [] of
          (out, inserted, start', end') \<Rightarrow>
            merge_coalesce
              (sort_key fst (if \<not> inserted then out @ [(start', end')] else out)) []))"

fun covered_bytes :: "range list \<Rightarrow> int" where
  "covered_bytes [] = 0"
| "covered_bytes ((a, b) # rs) = max 0 (b - a + 1) + covered_bytes rs"

text \<open>
  The ranges of one key after a sequence of observations, each merged into the list the
  previous one left, as \<open>_update_play_progress\<close> does with \<open>prog.ranges\<close>.
\<close>

fun observe_all :: "range list \<Rightarrow> range list \<Rightarrow> range list" where
  "observe_all ranges [] = ranges"
| "observe_all ranges ((s, e) # obs) = observe_all (merge_ranges ranges s e) obs"

text \<open>
  The shape the claim names: every interval is non-empty, the intervals are sorted, and
  each one ends at least two bytes before every later one starts, so none overlap and none
  are adjacent.
\<close>

definition ranges_ok :: "range list \<Rightarrow> bool" where
  "ranges_ok rs =
     (list_all (\<lambda>(a, b). a \<le> b) rs \<and> sorted_wrt (\<lambda>(a, b) (c, d). b + 1 < c) rs)"

text \<open>The bytes a list of ranges covers.\<close>

definition covered_set :: "range list \<Rightarrow> int set" where
  "covered_set rs = (\<Union>(a, b) \<in> set rs. {a..b})"

text \<open>
  What the first loop leaves for the sort: \<open>out\<close>, with the pending range appended
  when the loop has not inserted it (\<open>if not inserted: out.append((start, end))\<close>).
\<close>

definition scan_list :: "range list \<times> bool \<times> int \<times> int \<Rightarrow> range list" where
  "scan_list r = (case r of (out, inserted, s, e) \<Rightarrow> if \<not> inserted then out @ [(s, e)] else out)"

subsection \<open>The progress table\<close>

text \<open>
  The dataclass \<open>_PlayProgress\<close>. Durations and clock readings are Python floats; they
  are modelled as exact reals, so rounding, infinities and NaN are outside the model.
\<close>

record play_progress =
  file_size :: "int option"
  duration_sec :: "real option"
  bitrate_kbps :: "int option"
  ranges :: "range list"
  counted :: bool
  last_seen :: real

definition PLAY_COUNT_THRESHOLD_SEC :: real where
  "PLAY_COUNT_THRESHOLD_SEC = 30"

definition PLAY_PROGRESS_TTL_SEC :: real where
  "PLAY_PROGRESS_TTL_SEC = 1800"

definition PLAY_PROGRESS_MAX :: nat where
  "PLAY_PROGRESS_MAX = 5000"

text \<open>
  The second and third branch of \<open>_seconds_from_bytes\<close>. A Python condition
  \<open>if x and x > 0\<close> on an optional number is false for \<open>None\<close> and for zero.
\<close>

definition seconds_from_bitrate :: "int \<Rightarrow> int option \<Rightarrow> real" where
  "seconds_from_bitrate covered bitrate =
     (case bitrate of
        None \<Rightarrow> 0
      | Some br \<Rightarrow>
          if br \<noteq> 0 \<and> br > 0 then
            (let bytes_per_sec = (real_of_int br * 1000) / 8
             in if bytes_per_sec > 0 then real_of_int covered / bytes_per_sec else 0)
          else 0)"

definition seconds_from_bytes :: "int \<Rightarrow> int option \<Rightarrow> real option \<Rightarrow> int option \<Rightarrow> real" where
  "seconds_from_bytes covered0 fsize duration bitrate =
     (let covered = max 0 covered0 in
      case (fsize, duration) of
        (Some fs, Some d) \<Rightarrow>
          if fs \<noteq> 0 \<and> d \<noteq> 0 \<and> fs > 0 \<and> d > 0 then real_of_int covered * d / real_of_int fs
          else seconds_from_bitrate covered bitrate
      | _ \<Rightarrow> seconds_from_bitrate covered bitrate)"

text \<open>
  The dictionary \<open>_PLAY_PROGRESS\<close> is an association list in insertion order with one
  entry per key: \<open>AList.update\<close> overwrites in place or appends, as a dict assignment
  does, and \<open>AList.delete\<close> is \<open>pop(k, None)\<close>.
\<close>

type_synonym progress_table = "(string \<times> play_progress) list"

definition pop_all :: "string list \<Rightarrow> progress_table \<Rightarrow> progress_table" where
  "pop_all ks tbl = foldl (\<lambda>t k. AList.delete k t) tbl ks"

definition prune_play_progress :: "real \<Rightarrow> progress_table \<Rightarrow> progress_table" where
  "prune_play_progress now tbl =
     (if tbl = [] then tbl
      else
        (let expired = map fst (filter (\<lambda>(k, v). now - last_seen v > PLAY_PROGRESS_TTL_SEC) tbl);
             tbl1 = pop_all expired tbl
         in if length tbl1 \<le> PLAY_PROGRESS_MAX then tbl1
            else
              (let items = sort_key (\<lambda>kv. last_seen (snd kv)) tbl1
               in pop_all (map fst (take (length items - PLAY_PROGRESS_MAX) items)) tbl1)))"

text \<open>
  The entry \<open>_update_play_progress\<close> works on: the stored one, or a new one; then
  \<open>last_seen\<close> and each piece of metadata the request carries are overwritten.
\<close>

definition refreshed_entry ::
  "real \<Rightarrow> int option \<Rightarrow> real option \<Rightarrow> int option \<Rightarrow> play_progress option \<Rightarrow> play_progress" where
  "refreshed_entry now fsize duration bitrate stored =
     (let prog0 =
        (case stored of
           None \<Rightarrow> \<lparr>file_size = fsize, duration_sec = duration, bitrate_kbps = bitrate,
                     ranges = [], counted = False, last_seen = now\<rparr>
         | Some p \<Rightarrow> p);
          prog1 = prog0\<lparr>last_seen := now\<rparr>;
          prog2 = (case fsize of None \<Rightarrow> prog1 | Some f \<Rightarrow> prog1\<lparr>file_size := Some f\<rparr>);
          prog3 = (case duration of None \<Rightarrow> prog2 | Some d \<Rightarrow> prog2\<lparr>duration_sec := Some d\<rparr>)
      in (case bitrate of None \<Rightarrow> prog3 | Some b \<Rightarrow> prog3\<lparr>bitrate_kbps := Some b\<rparr>))"

text \<open>
  \<open>_update_play_progress\<close>, the body under \<open>_PLAY_PROGRESS_LOCK\<close>: the clock reading
  \<open>now\<close> is a parameter, the table is passed in and returned with the result.
\<close>

definition update_play_progress ::
  "real \<Rightarrow> string \<Rightarrow> int \<Rightarrow> int \<Rightarrow> int option \<Rightarrow> real option \<Rightarrow> int option \<Rightarrow>
     progress_table \<Rightarrow> bool \<times> progress_table" where
  "update_play_progress now key start end fsize duration bitrate tbl =
     (let tbl1 = prune_play_progress now tbl;
          prog = refreshed_entry now fsize duration bitrate (map_of tbl1 key)
      in if counted prog then (False, AList.update key prog tbl1)
         else
           (let prog' = prog\<lparr>ranges := merge_ranges (ranges prog) start end\<rparr>;
                covered = covered_bytes (ranges prog');
                sec = seconds_from_bytes covered (file_size prog') (duration_sec prog')
                        (bitrate_kbps prog')
            in if sec \<ge> PLAY_COUNT_THRESHOLD_SEC
               then (True, AList.update key (prog'\<lparr>counted := True\<rparr>) tbl1)
               else (False, AList.update key prog' tbl1)))"

text \<open>
  A call of \<open>_update_play_progress\<close>: the clock reading, the key, the range and the
  metadata. \<open>run_updates\<close> makes the calls in order on one table and lists the results.
\<close>

type_synonym update_call = "real \<times> string \<times> int \<times> int \<times> int option \<times> real option \<times> int option"

fun apply_call :: "update_call \<Rightarrow> progress_table \<Rightarrow> bool \<times> progress_table" where
  "apply_call (now, key, start, end, fsize, duration, bitrate) tbl =
     update_play_progress now key start end fsize duration bitrate tbl"

fun run_updates :: "progress_table \<Rightarrow> update_call list \<Rightarrow> (string \<times> bool) list" where
  "run_updates tbl [] = []"
| "run_updates tbl (c # cs) =
     (fst (snd c), fst (apply_call c tbl)) # run_updates (snd (apply_call c tbl)) cs"

text \<open>How often the calls for \<open>key\<close> returned true.\<close>

definition fire_count :: "string \<Rightarrow> progress_table \<Rightarrow> update_call list \<Rightarrow> nat" where
  "fire_count key tbl cs = length (filter (\<lambda>(k, hit). k = key \<and> hit) (run_updates tbl cs))"

text \<open>
  No call's pruning removes the entry of \<open>key\<close>: whenever the key has an entry when a
  call starts, it still has it after that call's \<open>_prune_play_progress_locked\<close>.
\<close>

fun entry_kept :: "string \<Rightarrow> progress_table \<Rightarrow> update_call list \<Rightarrow> bool" where
  "entry_kept key tbl [] = True"
| "entry_kept key tbl (c # cs) =
     ((map_of tbl key = None \<or> map_of (prune_play_progress (fst c) tbl) key \<noteq> None)
      \<and> entry_kept key (snd (apply_call c tbl)) cs)"

text \<open>The stored \<open>counted\<close> flag of a key; false when the key has no entry.\<close>

definition is_counted :: "string \<Rightarrow> progress_table \<Rightarrow> bool" where
  "is_counted key tbl = (case map_of tbl key of None \<Rightarrow> False | Some p \<Rightarrow> counted p)"

text \<open>The listened seconds \<open>_seconds_from_bytes\<close> estimates from a key's stored entry.\<close>

definition entry_seconds :: "string \<Rightarrow> progress_table \<Rightarrow> real" where
  "entry_seconds key tbl =
     (case map_of tbl key of
        None \<Rightarrow> 0
      | Some p \<Rightarrow>
          seconds_from_bytes (covered_bytes (ranges p)) (file_size p) (duration_sec p)
            (bitrate_kbps p))"

section \<open>Range requests (Api/services/stream\_service.py)\<close>

subsection \<open>Strings of a header value\<close>

text \<open>
  A header value reaches the code as a Python string decoded from Latin-1, so each of its
  characters is one 8-bit \<open>char\<close>. \<open>str.strip()\<close> removes the characters for which
  \<open>str.isspace\<close> holds: in Latin-1 the codes 9 to 13, 28 to 32, 133 and 160.
\<close>

definition py_isspace :: "char \<Rightarrow> bool" where
  "py_isspace c =
     (let n = (of_char c :: nat)
      in (9 \<le> n \<and> n \<le> 13) \<or> (28 \<le> n \<and> n \<le> 32) \<or> n = 133 \<or> n = 160)"

definition strip :: "string \<Rightarrow> string" where
  "strip s = rev (dropWhile py_isspace (rev (dropWhile py_isspace s)))"

text \<open>In Latin-1 the class \<open>\d\<close> of a Python string pattern is the ten ASCII digits.\<close>

definition is_digit :: "char \<Rightarrow> bool" where
  "is_digit c = (48 \<le> (of_char c :: nat) \<and> (of_char c :: nat) \<le> 57)"

definition digit_value :: "char \<Rightarrow> int" where
  "digit_value c = int (of_char c) - 48"

text \<open>Under \<open>re.I\<close> a letter of the pattern matches itself in either case.\<close>

definition lower_char :: "char \<Rightarrow> char" where
  "lower_char c =
     (if 65 \<le> (of_char c :: nat) \<and> (of_char c :: nat) \<le> 90
      then char_of ((of_char c :: nat) + 32) else c)"

text \<open>
  \<open>int(s)\<close> on a string of digits. CPython refuses a string of more than
  \<open>sys.int_info.default_max_str_digits\<close> digits with a \<open>ValueError\<close>, which is the
  exception the \<open>try\<close> blocks of \<open>_parse_range_header\<close> can catch.
\<close>

definition INT_MAX_STR_DIGITS :: nat where
  "INT_MAX_STR_DIGITS = 4300"

definition digits_value :: "string \<Rightarrow> int" where
  "digits_value ds = foldl (\<lambda>n c. 10 * n + digit_value c) 0 ds"

definition py_int :: "string \<Rightarrow> int option" where
  "py_int ds = (if length ds > INT_MAX_STR_DIGITS then None else Some (digits_value ds))"

text \<open>
  \<open>re.match(r"^bytes=(\d+)-(\d+)?$", s, flags=re.I)\<close>: the groups of the match, or
  \<open>None\<close>. The first group is the longest run of digits after the unit, which a hyphen
  must follow; the second group did not take part when nothing follows the hyphen. Without
  \<open>re.M\<close> the anchor \<open>$\<close> also matches just before a final newline.
\<close>

definition match_range :: "string \<Rightarrow> (string \<times> string option) option" where
  "match_range s =
     (if map lower_char (take 6 s) = ''bytes='' then
        (let rest = drop 6 s;
             g1 = takeWhile is_digit rest
         in if g1 = [] then None
            else
              (case dropWhile is_digit rest of
                 [] \<Rightarrow> None
               | c # rest2 \<Rightarrow>
                   if c \<noteq> CHR ''-'' then None
                   else
                     (let tail = (if rest2 \<noteq> [] \<and> last rest2 = CHR 0x0A then butlast rest2
                                  else rest2)
                      in if tail = [] then Some (g1, None)
                         else if list_all is_digit tail then Some (g1, Some tail)
                         else None)))
      else None)"

definition parse_range_header :: "string \<Rightarrow> int option \<times> int option" where
  "parse_range_header v =
     (if v = [] then (None, None)
      else
        (case match_range (strip v) of
           None \<Rightarrow> (None, None)
         | Some (g1, g2) \<Rightarrow>
             (case py_int g1 of
                None \<Rightarrow> (None, None)
              | Some start \<Rightarrow>
                  if start < 0 then (None, None)
                  else
                    (let end = (case g2 of
                                  None \<Rightarrow> None
                                | Some ds \<Rightarrow> if ds \<noteq> [] then py_int ds else None)
                     in (case end of
                           None \<Rightarrow> (Some start, None)
                         | Some e \<Rightarrow> if e < start then (None, None) else (Some start, Some e))))))"

text \<open>
  The form the claims name for a header value: trimmed, and with the unit compared without
  regard to case, it reads \<open>bytes=<digits>-\<close> or \<open>bytes=<digits>-<digits>\<close>.
\<close>

definition range_form :: "string \<Rightarrow> bool" where
  "range_form v =
     (\<exists>ds es. ds \<noteq> [] \<and> list_all is_digit ds \<and> list_all is_digit es \<and>
        map lower_char (strip v) = ''bytes='' @ ds @ ''-'' @ es)"

subsection \<open>Byte iterators\<close>

type_synonym bytes = "8 word list"

definition CHUNK_SIZE :: int where
  "CHUNK_SIZE = 1024 * 1024"

text \<open>
  \<open>_direct_stream\<close>: the chunks it yields from the chunks \<open>client.stream_media\<close>
  delivers; the first argument is \<open>remaining_skip\<close>.
\<close>

fun direct_stream_loop :: "int \<Rightarrow> bytes list \<Rightarrow> bytes list" where
  "direct_stream_loop remaining_skip [] = []"
| "direct_stream_loop remaining_skip (chunk # cs) =
     (if chunk = [] then direct_stream_loop remaining_skip cs
      else if remaining_skip > 0 then
        (if int (length chunk) \<le> remaining_skip
         then direct_stream_loop (remaining_skip - int (length chunk)) cs
         else drop (nat remaining_skip) chunk # direct_stream_loop 0 cs)
      else chunk # direct_stream_loop remaining_skip cs)"

definition direct_stream :: "int \<Rightarrow> bytes list \<Rightarrow> bytes list" where
  "direct_stream start_byte chunks = direct_stream_loop (max 0 start_byte) chunks"

text \<open>
  \<open>_stream_range\<close>: the loop over the chunks, with \<open>cursor\<close> the offset of the next
  chunk. The slice \<open>chunk[rel_start : rel_end + 1]\<close> has non-negative bounds here.
\<close>

fun stream_range_loop :: "int \<Rightarrow> int option \<Rightarrow> int \<Rightarrow> bytes list \<Rightarrow> bytes list" where
  "stream_range_loop from_bytes until_bytes cursor [] = []"
| "stream_range_loop from_bytes until_bytes cursor (chunk # cs) =
     (if chunk = [] then stream_range_loop from_bytes until_bytes cursor cs
      else
        (let chunk_start = cursor;
             chunk_end = cursor + int (length chunk) - 1;
             cursor' = cursor + int (length chunk)
         in if chunk_end < from_bytes then stream_range_loop from_bytes until_bytes cursor' cs
            else if (case until_bytes of None \<Rightarrow> False | Some u \<Rightarrow> chunk_start > u) then []
            else
              (let out_start = max from_bytes chunk_start;
                   out_end = (case until_bytes of None \<Rightarrow> chunk_end | Some u \<Rightarrow> min u chunk_end);
                   rel_start = out_start - chunk_start;
                   rel_end = out_end - chunk_start;
                   piece = drop (nat rel_start) (take (nat (rel_end + 1)) chunk)
               in (if piece \<noteq> [] then [piece] else []) @
                  (if (case until_bytes of None \<Rightarrow> False | Some u \<Rightarrow> out_end \<ge> u) then []
                   else stream_range_loop from_bytes until_bytes cursor' cs))))"

text \<open>
  The upstream client is a parameter: \<open>media k\<close> lists the chunks
  \<open>client.stream_media(file_id, offset=k)\<close> delivers, and \<open>media 0\<close> those of the call
  without an offset.
\<close>

definition stream_range :: "(nat \<Rightarrow> bytes list) \<Rightarrow> int \<Rightarrow> int option \<Rightarrow> bytes list" where
  "stream_range media from_bytes0 until_bytes0 =
     (let from_bytes = max 0 from_bytes0;
          until_bytes = map_option (max from_bytes) until_bytes0;
          start_chunk = from_bytes div CHUNK_SIZE;
          cursor = start_chunk * CHUNK_SIZE
      in stream_range_loop from_bytes until_bytes cursor (media (nat start_chunk)))"

text \<open>
  What \<open>_wrap_with_play_count\<close> yields: every chunk for a HEAD request, and the
  non-empty chunks otherwise. Its play accounting does not change the bytes.
\<close>

definition wrap_with_play_count :: "bool \<Rightarrow> bytes list \<Rightarrow> bytes list" where
  "wrap_with_play_count is_head chunks = (if is_head then chunks else filter (\<lambda>c. c \<noteq> []) chunks)"

subsection \<open>The response of stream\_track\<close>

datatype http_error = RangeNotSatisfiable

datatype header_value = Token string | ByteRange int int int | Number int

record response =
  status_code :: nat
  headers :: "(string \<times> header_value) list"
  body :: "bytes list"

text \<open>
  \<open>stream_track\<close> from the \<open>Range\<close> header on, for a track that was found and a client
  that was acquired and has a file id: the header value, the request method, the stored
  \<open>file_size\<close> and the upstream chunks are parameters. \<open>ByteRange a b n\<close> stands for the
  text \<open>bytes a-b/n\<close> and \<open>Number n\<close> for \<open>str(n)\<close>.
\<close>

definition stream_track ::
  "string \<Rightarrow> bool \<Rightarrow> int option \<Rightarrow> (nat \<Rightarrow> bytes list) \<Rightarrow> http_error + response" where
  "stream_track range_value is_head fsize media =
     (let range_header = strip range_value;
          parsed = parse_range_header range_header;
          start_byte = fst parsed;
          end_byte = snd parsed;
          has_range = (range_header \<noteq> [] \<and> start_byte \<noteq> None);
          from_bytes = (case start_byte of None \<Rightarrow> 0 | Some s \<Rightarrow> s);
          until0 =
            (if has_range then
               (case end_byte of
                  Some e \<Rightarrow> Some e
                | None \<Rightarrow> (case fsize of None \<Rightarrow> None | Some fs \<Rightarrow> Some (fs - 1)))
             else None);
          until_bytes =
            (case (fsize, until0) of
               (Some fs, Some u) \<Rightarrow> Some (min u (fs - 1))
             | _ \<Rightarrow> until0)
      in if (case fsize of None \<Rightarrow> False | Some fs \<Rightarrow> has_range \<and> from_bytes \<ge> fs)
         then Inl RangeNotSatisfiable
         else
           (case (fsize, until_bytes) of
              (Some fs, Some u) \<Rightarrow>
                if has_range then
                  Inr \<lparr>status_code = 206,
                       headers = [(''Accept-Ranges'', Token ''bytes''),
                                  (''Content-Range'', ByteRange from_bytes u fs),
                                  (''Content-Length'', Number ((u - from_bytes) + 1))],
                       body = wrap_with_play_count is_head (stream_range media from_bytes (Some u))\<rparr>
                else
                  Inr \<lparr>status_code = 200,
                       headers = [(''Accept-Ranges'', Token ''bytes'')],
                       body = wrap_with_play_count is_head (direct_stream 0 (media 0))\<rparr>
            | _ \<Rightarrow>
                Inr \<lparr>status_code = 200,
                     headers = [(''Accept-Ranges'', Token ''bytes'')],
                     body = wrap_with_play_count is_head (direct_stream 0 (media 0))\<rparr>))"

text \<open>
  An upstream whose file arrives as the given chunks: a stream started at chunk offset
  \<open>k\<close> delivers the chunks from the \<open>k\<close>-th on.
\<close>

definition chunked_media :: "bytes list \<Rightarrow> nat \<Rightarrow> bytes list" where
  "chunked_media chunks k = drop k chunks"

section \<open>Connection pool (stream/\_\_init\_\_.py)\<close>

text \<open>
  The module state of the pool: the dictionary \<open>work_loads\<close> in insertion order,
  \<open>_rr_cursor\<close> and \<open>_primary_user_id\<close>, with the two settings the acquire functions
  read: \<open>Config.MULTI_CLIENTS\<close>, and whether streaming is on (\<open>ONLY_API\<close> is false and
  \<open>bot\<close> is set). \<open>multi_clients\<close> holds a client under each key of \<open>work_loads\<close>
  (the two dictionaries are always filled and cleared together), so the client an acquire
  returns is determined by the id and is left out.
\<close>

record pool =
  work_loads :: "(int \<times> int) list"
  rr_cursor :: int
  primary_user_id :: "int option"
  multi_clients_enabled :: bool
  streaming_enabled :: bool

datatype pool_error = StreamingDisabled | NoStreamingClients | EmptyMin

text \<open>\<open>work_loads.get(c, 0)\<close>, which is also \<open>int(work_loads.get(c) or 0)\<close>.\<close>

definition load_of :: "pool \<Rightarrow> int \<Rightarrow> int" where
  "load_of p c = (case map_of (work_loads p) c of None \<Rightarrow> 0 | Some v \<Rightarrow> v)"

text \<open>The candidate list both acquire functions start from.\<close>

definition base_candidates :: "pool \<Rightarrow> int list" where
  "base_candidates p =
     (let candidates = map fst (work_loads p)
      in if multi_clients_enabled p \<and> length candidates > 1 \<and> primary_user_id p \<noteq> None
         then
           (let others = filter (\<lambda>c. Some c \<noteq> primary_user_id p) candidates
            in if others \<noteq> [] then others else candidates)
         else candidates)"

fun list_min :: "int list \<Rightarrow> int" where
  "list_min [] = 0"
| "list_min (x # xs) = fold min xs x"

text \<open>\<open>tied.index(x)\<close> for an \<open>x\<close> that occurs in \<open>tied\<close>.\<close>

fun index_of :: "int list \<Rightarrow> int \<Rightarrow> nat" where
  "index_of [] x = 0"
| "index_of (y # ys) x = (if y = x then 0 else Suc (index_of ys x))"

text \<open>\<open>min(work_loads, key=work_loads.get)\<close>: the first key of least load.\<close>

fun first_min_key :: "(int \<times> int) list \<Rightarrow> int option" where
  "first_min_key [] = None"
| "first_min_key ((k, v) # kvs) =
     (case first_min_key kvs of
        None \<Rightarrow> Some k
      | Some k' \<Rightarrow> if v \<le> list_min (map snd kvs) then Some k else Some k')"

text \<open>
  The selection both acquire functions share, from the candidate list on. The handle is
  chosen and \<open>_rr_cursor\<close> set before the load is incremented; a raise leaves the pool as
  it was.
\<close>

definition select_client :: "pool \<Rightarrow> int list \<Rightarrow> pool_error + (int \<times> pool)" where
  "select_client p candidates =
     (if candidates = [] then Inl NoStreamingClients
      else
        (let min_load = list_min (map (load_of p) candidates);
             tied = sort (filter (\<lambda>c. load_of p c = min_load) candidates)
         in if tied \<noteq> [] then
              (let start_idx =
                     (if rr_cursor p \<in> set tied then (index_of tied (rr_cursor p) + 1) mod length tied
                      else 0);
                   cid = tied ! start_idx
               in Inr (cid, p\<lparr>work_loads := AList.update cid (load_of p cid + 1) (work_loads p),
                              rr_cursor := cid\<rparr>))
            else
              (case first_min_key (work_loads p) of
                 None \<Rightarrow> Inl EmptyMin
               | Some cid \<Rightarrow>
                   Inr (cid, p\<lparr>work_loads := AList.update cid (load_of p cid + 1) (work_loads p)\<rparr>))))"

definition acquire_stream_client :: "pool \<Rightarrow> pool_error + (int \<times> pool)" where
  "acquire_stream_client p =
     (if \<not> streaming_enabled p then Inl StreamingDisabled
      else select_client p (base_candidates p))"

definition acquire_stream_client_prefer :: "int list \<Rightarrow> pool \<Rightarrow> pool_error + (int \<times> pool)" where
  "acquire_stream_client_prefer preferred_user_ids p =
     (if \<not> streaming_enabled p then Inl StreamingDisabled
      else
        (let candidates = base_candidates p;
             picked = filter (\<lambda>c. c \<in> set preferred_user_ids) candidates
         in select_client p (if preferred_user_ids \<noteq> [] \<and> picked \<noteq> [] then picked else candidates)))"

definition release_stream_client :: "int \<Rightarrow> pool \<Rightarrow> pool" where
  "release_stream_client client_id p =
     (if client_id \<notin> fst ` set (work_loads p) then p
      else
        (let v = load_of p client_id - 1
         in p\<lparr>work_loads := AList.update client_id (if v > 0 then v else 0) (work_loads p)\<rparr>))"

text \<open>
  Sequences of pool operations. An acquire that raises has changed nothing, so the run
  goes on from the same pool.
\<close>

datatype pool_op = Acquire | AcquirePrefer "int list" | Release int

fun pool_step :: "pool_op \<Rightarrow> pool \<Rightarrow> pool" where
  "pool_step Acquire p = (case acquire_stream_client p of Inl e \<Rightarrow> p | Inr (cid, p') \<Rightarrow> p')"
| "pool_step (AcquirePrefer ids) p =
     (case acquire_stream_client_prefer ids p of Inl e \<Rightarrow> p | Inr (cid, p') \<Rightarrow> p')"
| "pool_step (Release cid) p = release_stream_client cid p"

definition pool_run :: "pool_op list \<Rightarrow> pool \<Rightarrow> pool" where
  "pool_run ops p = fold pool_step ops p"

text \<open>Every load is at least zero.\<close>

definition loads_nonneg :: "pool \<Rightarrow> bool" where
  "loads_nonneg p = list_all (\<lambda>(c, v). 0 \<le> v) (work_loads p)"

text \<open>The handles in \<open>cs\<close> differ in load by at most one.\<close>

definition balanced :: "pool \<Rightarrow> int list \<Rightarrow> bool" where
  "balanced p cs = list_all (\<lambda>a. list_all (\<lambda>b. load_of p a \<le> load_of p b + 1) cs) cs"

text \<open>A pool as \<open>initialize_multi_clients\<close> leaves it: every load is zero.\<close>

definition idle :: "pool \<Rightarrow> bool" where
  "idle p = list_all (\<lambda>(c, v). v = 0) (work_loads p)"

section \<open>Distribution hub (Api/services/stream\_service.py)\<close>

text \<open>
  The state of a \<open>_StreamHub\<close> that its locked sections read and write: the deque
  \<open>_chunks\<close> of \<open>(offset, data)\<close>, \<open>_total_written\<close>, \<open>_done\<close> (here \<open>finished\<close>),
  \<open>_error\<close> (here \<open>failure\<close>, the exception as a text), the dictionary \<open>_consumers\<close> in
  insertion order and the set \<open>_lagged\<close>. \<open>_last_access\<close> is written and never read.
\<close>

type_synonym chunk = "int \<times> bytes"

record hub =
  chunks :: "chunk list"
  total_written :: int
  finished :: bool
  failure :: "string option"
  consumers :: "(string \<times> int) list"
  lagged :: "string set"

definition MAX_STREAM_BUFFER_BYTES :: int where
  "MAX_STREAM_BUFFER_BYTES = 25000000"

definition hub_init :: hub where
  "hub_init = \<lparr>chunks = [], total_written = 0, finished = False, failure = None,
                consumers = [], lagged = {}\<rparr>"

definition chunk_end :: "chunk \<Rightarrow> int" where
  "chunk_end c = fst c + int (length (snd c))"

definition buffer_start :: "hub \<Rightarrow> int" where
  "buffer_start h = (case chunks h of [] \<Rightarrow> total_written h | c # cs \<Rightarrow> fst c)"

text \<open>\<open>min(self._consumers.values(), default=self._total_written)\<close>.\<close>

definition min_offset :: "hub \<Rightarrow> int" where
  "min_offset h =
     (if consumers h = [] then total_written h else list_min (map snd (consumers h)))"

text \<open>
  The first loop of \<open>_gc_locked\<close>: leading chunks that end at or below the least
  consumer cursor are popped.
\<close>

definition drop_consumed :: "hub \<Rightarrow> hub" where
  "drop_consumed h = h\<lparr>chunks := dropWhile (\<lambda>c. chunk_end c \<le> min_offset h) (chunks h)\<rparr>"

text \<open>
  The rest of \<open>_gc_locked\<close>, entered when the bytes still buffered exceed the cap: leading
  chunks that end at or below \<open>keep_from\<close> are popped, and when that moved the buffer
  start, the consumers whose cursor is below the new start join \<open>_lagged\<close>.
\<close>

definition keep_from :: "hub \<Rightarrow> int" where
  "keep_from h = total_written h - MAX_STREAM_BUFFER_BYTES"

definition over_cap :: "hub \<Rightarrow> bool" where
  "over_cap h = (total_written h - buffer_start h > MAX_STREAM_BUFFER_BYTES)"

definition drop_forced :: "hub \<Rightarrow> hub" where
  "drop_forced h =
     (let h2 = h\<lparr>chunks := dropWhile (\<lambda>c. chunk_end c \<le> keep_from h) (chunks h)\<rparr>;
          new_start = buffer_start h2
      in if new_start \<le> buffer_start h then h2
         else h2\<lparr>lagged := lagged h2 \<union>
                    fst ` set (filter (\<lambda>(cid, off). off < new_start) (consumers h2))\<rparr>)"

definition gc_locked :: "hub \<Rightarrow> hub" where
  "gc_locked h =
     (let h1 = drop_consumed h
      in if \<not> over_cap h1 then h1 else drop_forced h1)"

text \<open>
  The producer's locked section for one chunk of \<open>stream_media\<close>; an empty chunk is
  skipped before the lock is taken.
\<close>

definition append_chunk :: "bytes \<Rightarrow> hub \<Rightarrow> hub" where
  "append_chunk data h =
     (if data = [] then h
      else gc_locked (h\<lparr>total_written := total_written h + int (length data),
                         chunks := chunks h @ [(total_written h, data)]\<rparr>))"

text \<open>The start of \<open>iter_bytes\<close>: the cursor is registered at \<open>max(0, start_byte)\<close>.\<close>

definition register :: "string \<Rightarrow> int \<Rightarrow> hub \<Rightarrow> hub" where
  "register cid start_byte h = h\<lparr>consumers := AList.update cid (max 0 start_byte) (consumers h)\<rparr>"

text \<open>The chunk the \<open>for\<close> loop of \<open>iter_bytes\<close> selects for an offset.\<close>

fun find_chunk :: "int \<Rightarrow> chunk list \<Rightarrow> chunk option" where
  "find_chunk offset [] = None"
| "find_chunk offset (c # cs) =
     (if chunk_end c \<le> offset then find_chunk offset cs
      else if fst c > offset then None
      else Some c)"

text \<open>
  One pass of the \<open>while True\<close> loop of \<open>iter_bytes\<close> under the lock, for the consumer
  \<open>cid\<close> whose clamped start is \<open>start_byte\<close>: it raises \<open>_StreamBehindError\<close>, re-raises
  the producer's error, returns, waits on the condition, or advances the cursor, collects
  garbage and yields \<open>out\<close> (when \<open>out\<close> is not empty).
\<close>

datatype iter_result = Behind | Failed string | Returned | Waiting | Yielded bytes hub

definition iter_step :: "string \<Rightarrow> int \<Rightarrow> hub \<Rightarrow> iter_result" where
  "iter_step cid start_byte h =
     (if cid \<in> lagged h then Behind
      else
        (case failure h of
           Some e \<Rightarrow> Failed e
         | None \<Rightarrow>
             (let offset = (case map_of (consumers h) cid of None \<Rightarrow> start_byte | Some off \<Rightarrow> off)
              in if offset < buffer_start h \<and> total_written h > 0 then Behind
                 else if finished h \<and> offset \<ge> total_written h then Returned
                 else
                   (case find_chunk offset (chunks h) of
                      None \<Rightarrow> Waiting
                    | Some c \<Rightarrow>
                        (let rel = offset - fst c;
                             out = (if rel > 0 then drop (nat rel) (snd c) else snd c)
                         in Yielded out
                              (gc_locked
                                 (h\<lparr>consumers :=
                                      AList.update cid (offset + int (length out)) (consumers h)\<rparr>)))))))"

text \<open>The \<open>finally\<close> block of \<open>iter_bytes\<close>.\<close>

definition unregister :: "string \<Rightarrow> hub \<Rightarrow> hub" where
  "unregister cid h =
     gc_locked (h\<lparr>consumers := AList.delete cid (consumers h), lagged := lagged h - {cid}\<rparr>)"

subsection \<open>Interleavings\<close>

text \<open>
  Every change of the hub happens in a section that holds \<open>self._cond\<close> and does not
  await inside, so a run of the hub is a sequence of such sections: the producer appends a
  chunk, records an error or sets \<open>_done\<close>; a consumer registers, makes one pass of its
  loop, or leaves through its \<open>finally\<close> block. \<open>Read cid s\<close> is a pass of the consumer
  \<open>cid\<close> with clamped start \<open>s\<close>; only a pass that yields changes the hub.
\<close>

datatype hub_event =
    Append bytes
  | Fail string
  | Exit
  | Register string int
  | Read string int
  | Leave string

fun hub_step :: "hub_event \<Rightarrow> hub \<Rightarrow> hub" where
  "hub_step (Append data) h = append_chunk data h"
| "hub_step (Fail e) h = h\<lparr>failure := Some e\<rparr>"
| "hub_step Exit h = h\<lparr>finished := True\<rparr>"
| "hub_step (Register cid s) h = register cid s h"
| "hub_step (Read cid s) h = (case iter_step cid s h of Yielded out h' \<Rightarrow> h' | _ \<Rightarrow> h)"
| "hub_step (Leave cid) h = unregister cid h"

definition hub_run :: "hub_event list \<Rightarrow> hub \<Rightarrow> hub" where
  "hub_run evs h = fold hub_step evs h"

text \<open>The bytes the producer appended during a run, in order.\<close>

fun emitted :: "hub_event list \<Rightarrow> bytes" where
  "emitted [] = []"
| "emitted (Append data # evs) = data @ emitted evs"
| "emitted (ev # evs) = emitted evs"

text \<open>The slices the passes of consumer \<open>cid\<close> yield during a run that starts in \<open>h\<close>.\<close>

fun yielded :: "string \<Rightarrow> hub_event list \<Rightarrow> hub \<Rightarrow> bytes list" where
  "yielded cid [] h = []"
| "yielded cid (Read c s # evs) h =
     (case iter_step c s h of
        Yielded out h' \<Rightarrow> (if c = cid \<and> out \<noteq> [] then [out] else []) @ yielded cid evs h'
      | _ \<Rightarrow> yielded cid evs h)"
| "yielded cid (ev # evs) h = yielded cid evs (hub_step ev h)"

text \<open>
  The consumer id is \<open>str(time.time_ns())\<close>. \<open>mentions cid ev\<close> says that an event
  belongs to a consumer with that id.
\<close>

fun mentions :: "string \<Rightarrow> hub_event \<Rightarrow> bool" where
  "mentions cid (Register c s) = (c = cid)"
| "mentions cid (Read c s) = (c = cid)"
| "mentions cid (Leave c) = (c = cid)"
| "mentions cid ev = False"

text \<open>The events of \<open>cid\<close> in a run are passes of its loop with the start \<open>s\<close>.\<close>

definition only_reads :: "string \<Rightarrow> int \<Rightarrow> hub_event list \<Rightarrow> bool" where
  "only_reads cid s evs = list_all (\<lambda>ev. mentions cid ev \<longrightarrow> ev = Read cid s) evs"

subsection \<open>Well-formed buffers\<close>

text \<open>
  \<open>chained s cs e\<close>: the chunks \<open>cs\<close> are non-empty, start at \<open>s\<close>, each starts where
  the one before ends, and the last ends at \<open>e\<close>.
\<close>

fun chained :: "int \<Rightarrow> chunk list \<Rightarrow> int \<Rightarrow> bool" where
  "chained s [] e = (s = e)"
| "chained s (c # cs) e = (fst c = s \<and> snd c \<noteq> [] \<and> chained (chunk_end c) cs e)"

definition hub_wf :: "hub \<Rightarrow> bool" where
  "hub_wf h = (0 \<le> buffer_start h \<and> chained (buffer_start h) (chunks h) (total_written h))"

text \<open>The chunks a garbage collection removed from the front of the deque.\<close>

definition evicted :: "hub \<Rightarrow> chunk list" where
  "evicted h = take (length (chunks h) - length (chunks (gc_locked h))) (chunks h)"

text \<open>
  The buffer holds bytes of the stream \<open>em\<close>: \<open>em\<close> is as long as \<open>_total_written\<close> says
  and every chunk is the piece of \<open>em\<close> at its offset.
\<close>

definition holds_bytes :: "bytes \<Rightarrow> hub \<Rightarrow> bool" where
  "holds_bytes em h =
     (total_written h = int (length em) \<and>
      list_all (\<lambda>c. 0 \<le> fst c \<and> snd c = take (length (snd c)) (drop (nat (fst c)) em)) (chunks h))"

text \<open>A run in which only the producer acts, as after a warm request.\<close>

fun producer_event :: "hub_event \<Rightarrow> bool" where
  "producer_event (Append data) = True"
| "producer_event (Fail e) = True"
| "producer_event Exit = True"
| "producer_event ev = False"

text \<open>A chunk of \<open>_CHUNK_SIZE\<close> bytes, the size in which the upstream delivers a file.\<close>

definition mebibyte_chunk :: bytes where
  "mebibyte_chunk = replicate 1048576 0"

text \<open>
  The cursor of consumer \<open>cid\<close>, started at \<open>s\<close>, agrees with what it has received:
  \<open>out\<close> is the piece of the stream \<open>em\<close> from \<open>s\<close> up to the cursor.
\<close>

definition cursor_inv :: "string \<Rightarrow> int \<Rightarrow> bytes \<Rightarrow> bytes \<Rightarrow> hub \<Rightarrow> bool" where
  "cursor_inv cid s em out h =
     (holds_bytes em h \<and> 0 \<le> s \<and>
      (\<exists>off. map_of (consumers h) cid = Some off \<and> s \<le> off
         \<and> (off \<le> total_written h \<or> off = s)
         \<and> out = take (nat (off - s)) (drop (nat s) em)))"

section \<open>Hub registry and producer tasks (Api/services/stream\_service.py)\<close>

text \<open>
  \<open>_hub_key\<close> builds the text \<open>m:<chat>:<message>\<close> or \<open>f:<file_id>\<close>; the two
  shapes are kept apart as the constructors of a datatype.
\<close>

datatype resource_key = MessageKey int int | FileKey string

definition hub_key :: "string \<Rightarrow> int option \<Rightarrow> int option \<Rightarrow> resource_key" where
  "hub_key file_id source_chat_id source_message_id =
     (case (source_chat_id, source_message_id) of
        (Some c, Some m) \<Rightarrow> MessageKey c m
      | _ \<Rightarrow> FileKey file_id)"

text \<open>
  The dictionary \<open>_STREAM_HUBS\<close> maps a key to a hub object. Hub objects and tasks are
  kept in a store: a hub is an address below \<open>n_hubs\<close> with its field \<open>_producer\<close>, a
  task is an address below \<open>n_tasks\<close> with the hub whose \<open>_run\<close> it executes and
  whether it is done.
\<close>

record registry =
  STREAM_HUBS :: "(resource_key \<times> nat) list"
  n_hubs :: nat
  producer :: "nat \<Rightarrow> nat option"
  n_tasks :: nat
  task_hub :: "nat \<Rightarrow> nat"
  task_done :: "nat \<Rightarrow> bool"

definition registry_init :: registry where
  "registry_init = \<lparr>STREAM_HUBS = [], n_hubs = 0, producer = (\<lambda>h. None), n_tasks = 0,
                     task_hub = (\<lambda>t. 0), task_done = (\<lambda>t. False)\<rparr>"

text \<open>
  \<open>_StreamHub.start\<close>: a task is created when \<open>_producer\<close> is \<open>None\<close> or done.
\<close>

definition hub_start :: "nat \<Rightarrow> registry \<Rightarrow> registry" where
  "hub_start hid s =
     (if (case producer s hid of None \<Rightarrow> True | Some t \<Rightarrow> task_done s t)
      then s\<lparr>producer := (producer s)(hid := Some (n_tasks s)),
             task_hub := (task_hub s)(n_tasks s := hid),
             task_done := (task_done s)(n_tasks s := False),
             n_tasks := Suc (n_tasks s)\<rparr>
      else s)"

text \<open>
  \<open>_get_or_create_hub\<close>, the section under \<open>_STREAM_HUBS_LOCK\<close>: the hub returned and
  the new state.
\<close>

definition get_or_create_hub ::
  "string \<Rightarrow> int option \<Rightarrow> int option \<Rightarrow> registry \<Rightarrow> nat \<times> registry" where
  "get_or_create_hub file_id source_chat_id source_message_id s =
     (let key = hub_key file_id source_chat_id source_message_id
      in case map_of (STREAM_HUBS s) key of
           None \<Rightarrow>
             (let hid = n_hubs s;
                  s' = s\<lparr>STREAM_HUBS := AList.update key hid (STREAM_HUBS s),
                         n_hubs := Suc (n_hubs s),
                         producer := (producer s)(hid := None)\<rparr>
              in (hid, hub_start hid s'))
         | Some hid \<Rightarrow> (hid, hub_start hid s))"

text \<open>
  What can happen between start-up and shutdown: a request calls \<open>_get_or_create_hub\<close>
  (the warm endpoint, or \<open>_stream_file_id\<close>), a consumer that holds a hub enters
  \<open>iter_bytes\<close>, which calls \<open>start()\<close>, or a producer task ends. \<open>close_stream_hubs\<close>
  runs once, at shutdown, after the server has stopped, and is not an event.
\<close>

datatype registry_event =
    Request string "int option" "int option"
  | Attach nat
  | TaskEnds nat

fun registry_step :: "registry_event \<Rightarrow> registry \<Rightarrow> registry" where
  "registry_step (Request file_id c m) s = snd (get_or_create_hub file_id c m s)"
| "registry_step (Attach hid) s = (if hid < n_hubs s then hub_start hid s else s)"
| "registry_step (TaskEnds t) s =
     (if t < n_tasks s then s\<lparr>task_done := (task_done s)(t := True)\<rparr> else s)"

definition registry_run :: "registry_event list \<Rightarrow> registry \<Rightarrow> registry" where
  "registry_run evs s = fold registry_step evs s"

text \<open>The producer tasks of a hub that are not done.\<close>

definition live_tasks :: "registry \<Rightarrow> nat \<Rightarrow> nat list" where
  "live_tasks s hid = filter (\<lambda>t. task_hub s t = hid \<and> \<not> task_done s t) [0..<n_tasks s]"

text \<open>All producer tasks ever created for a hub.\<close>

definition spawned_tasks :: "registry \<Rightarrow> nat \<Rightarrow> nat list" where
  "spawned_tasks s hid = filter (\<lambda>t. task_hub s t = hid) [0..<n_tasks s]"

text \<open>
  Every task that is not done is the \<open>_producer\<close> of its hub, and the store is closed:
  a producer is a task of that hub, and a task's hub exists.
\<close>

definition registry_ok :: "registry \<Rightarrow> bool" where
  "registry_ok s =
     ((\<forall>hid t. producer s hid = Some t \<longrightarrow> t < n_tasks s \<and> task_hub s t = hid) \<and>
      (\<forall>t < n_tasks s. task_hub s t < n_hubs s \<and>
         (\<not> task_done s t \<longrightarrow> producer s (task_hub s t) = Some t)) \<and>
      (\<forall>(k, hid) \<in> set (STREAM_HUBS s). hid < n_hubs s))"

text \<open>No task ends in these events.\<close>

fun no_task_ends :: "registry_event \<Rightarrow> bool" where
  "no_task_ends (TaskEnds t) = False"
| "no_task_ends ev = True"

section \<open>Covered-interval merging\<close>

lemma ranges_ok_Nil: "ranges_ok []" by (simp add: ranges_ok_def)

lemma ranges_ok_Cons:
  "ranges_ok ((a, b) # rs) \<longleftrightarrow> a \<le> b \<and> (\<forall>(c, d) \<in> set rs. b + 1 < c) \<and> ranges_ok rs"
  by (auto simp: ranges_ok_def)

lemma ranges_ok_append:
  "ranges_ok (xs @ ys) \<longleftrightarrow>
     ranges_ok xs \<and> ranges_ok ys \<and> (\<forall>(a, b) \<in> set xs. \<forall>(c, d) \<in> set ys. b + 1 < c)"
  by (auto simp: ranges_ok_def sorted_wrt_append)

lemma covered_set_Nil: "covered_set [] = {}" by (simp add: covered_set_def)

lemma covered_set_Cons: "covered_set ((a, b) # rs) = {a..b} \<union> covered_set rs"
  by (simp add: covered_set_def)

lemma covered_set_append: "covered_set (xs @ ys) = covered_set xs \<union> covered_set ys"
  by (simp add: covered_set_def)

lemma merge_scan_inserted:
  "\<forall>(a, b) \<in> set rs. e + 1 < a \<Longrightarrow> merge_scan rs s e True out = (out @ rs, True, s, e)"
  by (induction rs arbitrary: out) auto

lemma absorb_cover:
  fixes a b s e :: int
  shows "a \<le> b \<Longrightarrow> s \<le> e \<Longrightarrow> \<not> b + 1 < s \<Longrightarrow> \<not> e + 1 < a \<Longrightarrow> {min s a..max e b} = {s..e} \<union> {a..b}"
  by auto

lemma merge_scan_pending:
  assumes "ranges_ok rs" "s \<le> e" "ranges_ok (out @ [(s, e)])"
    "\<forall>(a0, b0) \<in> set out. \<forall>(a, b) \<in> set rs. b0 + 1 < a"
  shows "ranges_ok (scan_list (merge_scan rs s e False out)) \<and>
    covered_set (scan_list (merge_scan rs s e False out)) = covered_set out \<union> {s..e} \<union> covered_set rs"
  using assms
proof (induction rs arbitrary: s e out)
  case Nil
  then show ?case by (simp add: scan_list_def covered_set_append covered_set_Cons covered_set_Nil)
next
  case (Cons r rs)
  obtain a b where r: "r = (a, b)" by (cases r)
  from Cons.prems(1) have ab: "a \<le> b" and later: "\<forall>(c, d) \<in> set rs. b + 1 < c" and rs: "ranges_ok rs"
    by (auto simp: r ranges_ok_Cons)
  from Cons.prems(3) have out: "ranges_ok out" and outs: "\<forall>(a0, b0) \<in> set out. b0 + 1 < s"
    by (auto simp: ranges_ok_append)
  from Cons.prems(4) have outa: "\<forall>(a0, b0) \<in> set out. b0 + 1 < a"
    and outrs: "\<forall>(a0, b0) \<in> set out. \<forall>(a, b) \<in> set rs. b0 + 1 < a"
    by (auto simp: r)
  show ?case
  proof (cases "b + 1 < s")
    case True
    have 1: "ranges_ok ((out @ [(a, b)]) @ [(s, e)])"
      using out outs outa ab True Cons.prems(2)
      by (auto simp: ranges_ok_append ranges_ok_Cons ranges_ok_Nil)
    have 2: "\<forall>(a0, b0) \<in> set (out @ [(a, b)]). \<forall>(a, b) \<in> set rs. b0 + 1 < a"
      using outrs later by auto
    from Cons.IH[OF rs Cons.prems(2) 1 2] True show ?thesis
      by (auto simp: r covered_set_append covered_set_Cons covered_set_Nil)
  next
    case False
    show ?thesis
    proof (cases "e + 1 < a")
      case True
      have 3: "\<forall>(c, d) \<in> set rs. e + 1 < c" using later True ab by auto
      have eq: "merge_scan ((a, b) # rs) s e False out = (out @ [(s, e)] @ [(a, b)] @ rs, True, s, e)"
        using False True merge_scan_inserted[OF 3, of s "out @ [(s, e)] @ [(a, b)]"] by simp
      have "ranges_ok (out @ [(s, e)] @ [(a, b)] @ rs)"
        using out outs outa outrs ab True Cons.prems(2) later rs 3
        by (auto simp: ranges_ok_append ranges_ok_Cons ranges_ok_Nil)
      then show ?thesis unfolding r eq
        by (auto simp: scan_list_def covered_set_append covered_set_Cons covered_set_Nil)
    next
      case F2: False
      have 1: "ranges_ok (out @ [(min s a, max e b)])"
        using out outs outa ab Cons.prems(2)
        by (auto simp: ranges_ok_append ranges_ok_Cons ranges_ok_Nil)
      have 2: "min s a \<le> max e b" using ab Cons.prems(2) by auto
      from Cons.IH[OF rs 2 1 outrs] False F2 absorb_cover[OF ab Cons.prems(2) False F2]
      show ?thesis
        by (simp add: r covered_set_Cons Un_assoc Un_left_commute Un_commute)
    qed
  qed
qed

lemma ranges_ok_sorted_fst: "ranges_ok rs \<Longrightarrow> sorted (map fst rs)"
proof (induction rs)
  case Nil then show ?case by simp
next
  case (Cons r rs)
  obtain a b where r: "r = (a, b)" by (cases r)
  from Cons show ?case by (fastforce simp: r ranges_ok_Cons)
qed

lemma merge_coalesce_ok:
  "ranges_ok (merged @ rs) \<Longrightarrow> merge_coalesce rs merged = merged @ rs"
proof (induction rs arbitrary: merged)
  case Nil then show ?case by simp
next
  case (Cons r rs)
  obtain a b where r: "r = (a, b)" by (cases r)
  from Cons.prems have ok: "ranges_ok ((merged @ [(a, b)]) @ rs)" by (simp add: r)
  show ?case
  proof (cases "merged = []")
    case True
    with Cons.IH[OF ok] show ?thesis by (simp add: r)
  next
    case False
    obtain la lb where l: "last merged = (la, lb)" by (cases "last merged")
    have "(la, lb) \<in> set merged" using False l last_in_set by metis
    with Cons.prems have "lb + 1 < a" by (auto simp: r ranges_ok_append)
    with Cons.IH[OF ok] False l show ?thesis by (simp add: r)
  qed
qed

lemma merge_ranges_ok:
  assumes "ranges_ok rs"
  shows "ranges_ok (merge_ranges rs s e) \<and> covered_set (merge_ranges rs s e) = covered_set rs \<union> {s..e}"
proof (cases "e < s")
  case True
  with assms show ?thesis by (simp add: merge_ranges_def)
next
  case False
  then have se: "s \<le> e" by simp
  show ?thesis
  proof (cases "rs = []")
    case True
    with se show ?thesis
      by (simp add: merge_ranges_def ranges_ok_Cons ranges_ok_Nil covered_set_Cons covered_set_Nil)
  next
    case F: False
    have p: "ranges_ok (scan_list (merge_scan rs s e False [])) \<and>
      covered_set (scan_list (merge_scan rs s e False [])) = covered_set [] \<union> {s..e} \<union> covered_set rs"
      by (rule merge_scan_pending) (use assms se in \<open>auto simp: ranges_ok_Cons ranges_ok_Nil\<close>)
    have eq: "merge_ranges rs s e = scan_list (merge_scan rs s e False [])"
    proof -
      obtain out ins s' e' where m: "merge_scan rs s e False [] = (out, ins, s', e')"
        by (cases "merge_scan rs s e False []") auto
      let ?l = "if \<not> ins then out @ [(s', e')] else out"
      from p have ok: "ranges_ok ?l" by (simp add: m scan_list_def)
      have "sort_key fst ?l = ?l"
        by (rule sort_key_id_if_sorted) (rule ranges_ok_sorted_fst[OF ok])
      moreover have "merge_coalesce ?l [] = ?l" using merge_coalesce_ok[of "[]" ?l] ok by simp
      ultimately show ?thesis using F False by (simp add: merge_ranges_def m scan_list_def)
    qed
    from p show ?thesis by (auto simp: eq covered_set_Nil)
  qed
qed

lemma ranges_ok_later:
  "ranges_ok ((a, b) # rs) \<Longrightarrow> x \<in> covered_set rs \<Longrightarrow> b + 1 < x"
  by (fastforce simp: ranges_ok_Cons covered_set_def ranges_ok_def list_all_iff)

lemma ranges_ok_lower:
  "ranges_ok ((a, b) # rs) \<Longrightarrow> x \<in> covered_set ((a, b) # rs) \<Longrightarrow> a \<le> x"
  using ranges_ok_later[of a b rs x] by (auto simp: covered_set_Cons ranges_ok_Cons)

lemma ranges_ok_unique:
  "ranges_ok xs \<Longrightarrow> ranges_ok ys \<Longrightarrow> covered_set xs = covered_set ys \<Longrightarrow> xs = ys"
proof (induction xs arbitrary: ys)
  case Nil
  show ?case
  proof (cases ys)
    case Nil then show ?thesis by simp
  next
    case (Cons y ys')
    obtain c d where y: "y = (c, d)" by (cases y)
    from Nil.prems(2) have "c \<le> d" by (simp add: Cons y ranges_ok_Cons)
    then have "c \<in> covered_set ys" by (simp add: Cons y covered_set_Cons)
    with Nil.prems(3) show ?thesis by (simp add: covered_set_Nil)
  qed
next
  case (Cons x xs')
  obtain a b where x: "x = (a, b)" by (cases x)
  from Cons.prems(1) have ab: "a \<le> b" and xs': "ranges_ok xs'" by (auto simp: x ranges_ok_Cons)
  have okx: "ranges_ok ((a, b) # xs')" using Cons.prems(1) by (simp add: x)
  have ain: "a \<in> covered_set (x # xs')" using ab by (simp add: x covered_set_Cons)
  show ?case
  proof (cases ys)
    case Nil
    with Cons.prems(3) ain show ?thesis by (simp add: covered_set_Nil)
  next
    case (Cons y ys')
    obtain c d where y: "y = (c, d)" by (cases y)
    have oky: "ranges_ok ((c, d) # ys')" using Cons.prems(2) by (simp add: Cons y)
    then have cd: "c \<le> d" and ys': "ranges_ok ys'" by (auto simp: ranges_ok_Cons)
    have eqs: "covered_set ((a, b) # xs') = covered_set ((c, d) # ys')"
      using Cons.prems(3) by (simp add: x Cons y)
    have "c \<le> a" using ranges_ok_lower[OF oky, of a] ain eqs by (simp add: x)
    moreover have "a \<le> c"
    proof -
      have "c \<in> covered_set ((c, d) # ys')" using cd by (simp add: covered_set_Cons)
      then have "c \<in> covered_set ((a, b) # xs')" using eqs by simp
      from ranges_ok_lower[OF okx this] show ?thesis .
    qed
    ultimately have ac: "a = c" by simp
    have bd: "b = d"
    proof (rule ccontr)
      assume ne: "b \<noteq> d"
      show False
      proof (cases "b < d")
        case True
        then have "b + 1 \<in> covered_set ((c, d) # ys')" using ab ac by (simp add: covered_set_Cons)
        then have "b + 1 \<in> covered_set ((a, b) # xs')" using eqs by simp
        then have "b + 1 \<in> covered_set xs'" by (simp add: covered_set_Cons)
        from ranges_ok_later[OF okx this] show False by simp
      next
        case False
        with ne have "d < b" by simp
        then have "d + 1 \<in> covered_set ((a, b) # xs')" using cd ac by (simp add: covered_set_Cons)
        then have "d + 1 \<in> covered_set ((c, d) # ys')" using eqs by simp
        then have "d + 1 \<in> covered_set ys'" by (simp add: covered_set_Cons)
        from ranges_ok_later[OF oky this] show False by simp
      qed
    qed
    have dx: "covered_set xs' \<inter> {a..b} = {}" using ranges_ok_later[OF okx] by fastforce
    have dy: "covered_set ys' \<inter> {a..b} = {}" using ranges_ok_later[OF oky] bd by fastforce
    have "covered_set xs' = covered_set ys'"
      using eqs dx dy by (auto simp: covered_set_Cons ac bd)
    from Cons.IH[OF xs' ys' this] show ?thesis by (simp add: x Cons y ac bd)
  qed
qed

lemma observe_all_ok:
  "ranges_ok rs \<Longrightarrow>
     ranges_ok (observe_all rs obs) \<and>
     covered_set (observe_all rs obs) = covered_set rs \<union> (\<Union>(s, e) \<in> set obs. {s..e})"
proof (induction obs arbitrary: rs)
  case Nil then show ?case by simp
next
  case (Cons ob obs)
  obtain s e where ob: "ob = (s, e)" by (cases ob)
  from merge_ranges_ok[OF Cons.prems, of s e] Cons.IH[of "merge_ranges rs s e"]
  show ?case by (auto simp: ob)
qed

lemma covered_set_finite: "finite (covered_set rs)"
  by (auto simp: covered_set_def)

lemma covered_bytes_card: "ranges_ok rs \<Longrightarrow> covered_bytes rs = int (card (covered_set rs))"
proof (induction rs)
  case Nil then show ?case by (simp add: covered_set_Nil)
next
  case (Cons r rs)
  obtain a b where r: "r = (a, b)" by (cases r)
  from Cons.prems have ab: "a \<le> b" and rs: "ranges_ok rs" and ok: "ranges_ok ((a, b) # rs)"
    by (auto simp: r ranges_ok_Cons)
  have dj: "{a..b} \<inter> covered_set rs = {}" using ranges_ok_later[OF ok] by fastforce
  have "card ({a..b} \<union> covered_set rs) = card {a..b} + card (covered_set rs)"
    by (rule card_Un_disjoint) (use dj covered_set_finite in auto)
  with Cons.IH[OF rs] ab show ?case by (simp add: r covered_set_Cons)
qed

text \<open>
  Claim C8. Merging covered intervals does not depend on the order of the observations.
  Two sequences of observed ranges that cover the same bytes leave the same list: observing
  \<open>[0,999]\<close> then \<open>[1000,1999]\<close> leaves the single interval \<open>[0,1999]\<close>, and so
  does observing \<open>[500,1499]\<close>, \<open>[0,999]\<close>, \<open>[1000,1999]\<close>. The list
  \<open>_merge_ranges\<close> keeps is sorted, its intervals are disjoint and not adjacent, the bytes
  it covers are the union of the observed ranges, and \<open>_covered_bytes\<close> counts them.
\<close>

theorem merge_order_independent:
  assumes "(\<Union>(s, e) \<in> set obs. {s..e}) = (\<Union>(s, e) \<in> set obs'. {s..e})"
  shows "observe_all [] obs = observe_all [] obs'
    \<and> ranges_ok (observe_all [] obs)
    \<and> covered_set (observe_all [] obs) = (\<Union>(s, e) \<in> set obs. {s..e})
    \<and> covered_bytes (observe_all [] obs) = int (card (\<Union>(s, e) \<in> set obs. {s..e}))
    \<and> observe_all [] [(0, 999), (1000, 1999)] = [(0, 1999)]
    \<and> observe_all [] [(500, 1499), (0, 999), (1000, 1999)] = [(0, 1999)]"
proof -
  have a: "ranges_ok (observe_all [] obs)"
    and b: "covered_set (observe_all [] obs) = (\<Union>(s, e) \<in> set obs. {s..e})"
    using observe_all_ok[OF ranges_ok_Nil, of obs] by (simp_all add: covered_set_Nil)
  have a': "ranges_ok (observe_all [] obs')"
    and b': "covered_set (observe_all [] obs') = (\<Union>(s, e) \<in> set obs'. {s..e})"
    using observe_all_ok[OF ranges_ok_Nil, of obs'] by (simp_all add: covered_set_Nil)
  have c: "observe_all [] obs = observe_all [] obs'"
    by (rule ranges_ok_unique[OF a a']) (simp add: b b' assms)
  have d: "covered_bytes (observe_all [] obs) = int (card (\<Union>(s, e) \<in> set obs. {s..e}))"
    using covered_bytes_card[OF a] b by simp
  have e: "observe_all [] [(0, 999), (1000, 1999)] = [(0, 1999)]"
    by (simp add: merge_ranges_def)
  have f: "observe_all [] [(500, 1499), (0, 999), (1000, 1999)] = [(0, 1999)]"
    by (simp add: merge_ranges_def)
  from a b c d e f show ?thesis by blast
qed

theorem merge_order_independent_witness:
  "observe_all [] [(0, 999), (1000, 1999)] = observe_all [] [(500, 1499), (0, 999), (1000, 1999)]
   \<and> observe_all [] [(0, 999), (1000, 1999)] = [(0, 1999)]
   \<and> covered_bytes (observe_all [] [(0, 999), (1000, 1999)]) = 2000"
proof -
  have u: "(\<Union>(s, e) \<in> set [(0, 999), (1000, 1999)]. {s..e}) =
    (\<Union>(s, e) \<in> set [(500, 1499), (0, 999), (1000::int, 1999::int)]. {s..e})"
    by auto
  from merge_order_independent[OF u] show ?thesis by (simp add: merge_ranges_def)
qed

section \<open>Counting a play once\<close>

lemma map_of_pop_all:
  "map_of (pop_all ks tbl) k = (if k \<in> set ks then None else map_of tbl k)"
  unfolding pop_all_def
proof (induction ks arbitrary: tbl)
  case Nil then show ?case by simp
next
  case (Cons x ks)
  show ?case by (simp add: Cons.IH delete_conv)
qed

lemma prune_keeps_or_drops:
  "map_of (prune_play_progress now tbl) key = None \<or>
   map_of (prune_play_progress now tbl) key = map_of tbl key"
  by (simp add: prune_play_progress_def Let_def map_of_pop_all)

lemma refreshed_counted:
  "counted (refreshed_entry now fs d b stored) = (case stored of None \<Rightarrow> False | Some p \<Rightarrow> counted p)"
  by (simp add: refreshed_entry_def Let_def split: option.splits)

lemma refreshed_metadata:
  "file_size (refreshed_entry now fs d b (Some p)) = (case fs of None \<Rightarrow> file_size p | Some f \<Rightarrow> Some f)"
  "duration_sec (refreshed_entry now fs d b (Some p)) = (case d of None \<Rightarrow> duration_sec p | Some x \<Rightarrow> Some x)"
  "bitrate_kbps (refreshed_entry now fs d b (Some p)) = (case b of None \<Rightarrow> bitrate_kbps p | Some x \<Rightarrow> Some x)"
  "ranges (refreshed_entry now fs d b (Some p)) = ranges p"
  "last_seen (refreshed_entry now fs d b stored) = now"
  by (simp_all add: refreshed_entry_def Let_def split: option.splits)

lemma update_other_key:
  "k \<noteq> key \<Longrightarrow>
   map_of (snd (update_play_progress now k s e fs d b tbl)) key = map_of (prune_play_progress now tbl) key"
  by (simp add: update_play_progress_def Let_def update_conv')

lemma update_entry:
  "map_of (snd (update_play_progress now key s e fs d b tbl)) key =
     Some (let prog = refreshed_entry now fs d b (map_of (prune_play_progress now tbl) key)
           in if counted prog then prog
              else prog\<lparr>ranges := merge_ranges (ranges prog) s e,
                        counted := fst (update_play_progress now key s e fs d b tbl)\<rparr>)"
  by (simp add: update_play_progress_def Let_def update_conv')

lemma update_counted_step:
  assumes "map_of (prune_play_progress now tbl) key = Some p" "counted p"
  shows "fst (update_play_progress now key s e fs d b tbl) = False"
    and "map_of (snd (update_play_progress now key s e fs d b tbl)) key =
           Some (refreshed_entry now fs d b (Some p))"
    and "counted (refreshed_entry now fs d b (Some p))"
  using assms by (simp_all add: update_play_progress_def Let_def update_conv' refreshed_counted)

lemma update_fired_counted:
  "fst (update_play_progress now key s e fs d b tbl) \<Longrightarrow>
   is_counted key (snd (update_play_progress now key s e fs d b tbl))"
  by (simp add: is_counted_def update_entry Let_def)

lemma update_fired_fresh:
  "fst (update_play_progress now key s e fs d b tbl) \<Longrightarrow>
   \<not> is_counted key (prune_play_progress now tbl)"
  by (auto simp: update_play_progress_def Let_def is_counted_def refreshed_counted split: option.splits if_splits)

lemma counted_stays:
  assumes "is_counted key tbl"
    "map_of tbl key = None \<or> map_of (prune_play_progress now tbl) key \<noteq> None"
  shows "is_counted key (snd (update_play_progress now k s e fs d b tbl))
     \<and> (k = key \<longrightarrow> \<not> fst (update_play_progress now k s e fs d b tbl))"
proof -
  from assms(1) obtain p where p: "map_of tbl key = Some p" "counted p"
    by (auto simp: is_counted_def split: option.splits)
  with assms(2) prune_keeps_or_drops[of now tbl key]
  have q: "map_of (prune_play_progress now tbl) key = Some p" by auto
  show ?thesis
  proof (cases "k = key")
    case True
    with update_counted_step[OF q p(2)] show ?thesis
      by (simp add: is_counted_def)
  next
    case False
    with q p(2) show ?thesis by (simp add: is_counted_def update_other_key)
  qed
qed

lemma counted_never_fires:
  "is_counted key tbl \<Longrightarrow> entry_kept key tbl cs \<Longrightarrow> fire_count key tbl cs = 0"
proof (induction cs arbitrary: tbl)
  case Nil then show ?case by (simp add: fire_count_def)
next
  case (Cons c cs)
  obtain now k s e fs d b where c: "c = (now, k, s, e, fs, d, b)" by (cases c)
  from Cons.prems(2) have kept: "map_of tbl key = None \<or> map_of (prune_play_progress now tbl) key \<noteq> None"
    and rest: "entry_kept key (snd (update_play_progress now k s e fs d b tbl)) cs"
    by (simp_all add: c)
  from counted_stays[OF Cons.prems(1) kept, of k s e fs d b]
  have a: "is_counted key (snd (update_play_progress now k s e fs d b tbl))"
    and b: "k = key \<longrightarrow> \<not> fst (update_play_progress now k s e fs d b tbl)" by auto
  from Cons.IH[OF a rest] b show ?case by (auto simp: fire_count_def c)
qed

lemma fires_at_most_once:
  "entry_kept key tbl cs \<Longrightarrow> fire_count key tbl cs \<le> 1"
proof (induction cs arbitrary: tbl)
  case Nil then show ?case by (simp add: fire_count_def)
next
  case (Cons c cs)
  obtain now k s e fs d b where c: "c = (now, k, s, e, fs, d, b)" by (cases c)
  from Cons.prems have rest: "entry_kept key (snd (update_play_progress now k s e fs d b tbl)) cs"
    by (simp add: c)
  show ?case
  proof (cases "k = key \<and> fst (update_play_progress now k s e fs d b tbl)")
    case True
    then have "is_counted key (snd (update_play_progress now k s e fs d b tbl))"
      by (auto intro: update_fired_counted)
    from counted_never_fires[OF this rest] True show ?thesis by (simp add: fire_count_def c)
  next
    case False
    with Cons.IH[OF rest] show ?thesis by (auto simp: fire_count_def c)
  qed
qed

lemma update_fires_iff:
  "fst (update_play_progress now key s e fs d b tbl) \<longleftrightarrow>
     \<not> is_counted key (prune_play_progress now tbl) \<and>
     PLAY_COUNT_THRESHOLD_SEC \<le> entry_seconds key (snd (update_play_progress now key s e fs d b tbl))"
  by (auto simp: update_play_progress_def Let_def update_conv' is_counted_def entry_seconds_def
        refreshed_counted split: option.splits)

text \<open>
  Claim C7, as amended. \<open>_update_play_progress\<close> returns true exactly when the key's
  entry, after this call's pruning, is not yet counted and the seconds estimated from the
  entry it stores reach the 30-second threshold; the entry is then counted. While the entry
  is counted the call returns false, keeps it counted and still stores the refreshed
  metadata. Over any sequence of calls whose pruning never removes the key's entry, the
  calls for that key return true at most once.
\<close>

theorem play_counted_once_while_kept:
  "(entry_kept key tbl cs \<longrightarrow> fire_count key tbl cs \<le> 1)
   \<and> (is_counted key (prune_play_progress now tbl) \<longrightarrow>
        \<not> fst (update_play_progress now key s e fs d b tbl)
        \<and> is_counted key (snd (update_play_progress now key s e fs d b tbl))
        \<and> map_of (snd (update_play_progress now key s e fs d b tbl)) key =
            Some (refreshed_entry now fs d b (map_of (prune_play_progress now tbl) key)))
   \<and> (fst (update_play_progress now key s e fs d b tbl) \<longleftrightarrow>
        \<not> is_counted key (prune_play_progress now tbl) \<and>
        PLAY_COUNT_THRESHOLD_SEC \<le>
          entry_seconds key (snd (update_play_progress now key s e fs d b tbl)))
   \<and> (fst (update_play_progress now key s e fs d b tbl) \<longrightarrow>
        is_counted key (snd (update_play_progress now key s e fs d b tbl)))"
proof -
  have a: "entry_kept key tbl cs \<longrightarrow> fire_count key tbl cs \<le> 1"
    using fires_at_most_once by blast
  have b: "is_counted key (prune_play_progress now tbl) \<longrightarrow>
        \<not> fst (update_play_progress now key s e fs d b tbl)
        \<and> is_counted key (snd (update_play_progress now key s e fs d b tbl))
        \<and> map_of (snd (update_play_progress now key s e fs d b tbl)) key =
            Some (refreshed_entry now fs d b (map_of (prune_play_progress now tbl) key))"
  proof
    assume "is_counted key (prune_play_progress now tbl)"
    then obtain p where p: "map_of (prune_play_progress now tbl) key = Some p" "counted p"
      by (auto simp: is_counted_def split: option.splits)
    from update_counted_step[OF p] p(1)
    show "\<not> fst (update_play_progress now key s e fs d b tbl)
        \<and> is_counted key (snd (update_play_progress now key s e fs d b tbl))
        \<and> map_of (snd (update_play_progress now key s e fs d b tbl)) key =
            Some (refreshed_entry now fs d b (map_of (prune_play_progress now tbl) key))"
      by (simp add: is_counted_def)
  qed
  have c: "fst (update_play_progress now key s e fs d b tbl) \<longrightarrow>
        is_counted key (snd (update_play_progress now key s e fs d b tbl))"
    using update_fired_counted by blast
  from a b c update_fires_iff[of now key s e fs d b tbl] show ?thesis by blast
qed

text \<open>
  Claim C7 as stated fails: an entry idle for longer than \<open>_PLAY_PROGRESS_TTL_SEC\<close> is
  pruned at the start of the next call and recreated uncounted, so the same key fires again.
\<close>

theorem play_fires_again_after_ttl:
  "run_updates []
     [(0, ''k'', 0, 29999, None, None, Some 8), (2000, ''k'', 0, 29999, None, None, Some 8)]
   = [(''k'', True), (''k'', True)]"
  by (simp add: update_play_progress_def prune_play_progress_def refreshed_entry_def pop_all_def
      merge_ranges_def seconds_from_bytes_def seconds_from_bitrate_def PLAY_COUNT_THRESHOLD_SEC_def
      PLAY_PROGRESS_TTL_SEC_def PLAY_PROGRESS_MAX_def Let_def)

theorem play_counted_once_while_kept_witness:
  "entry_kept ''k''
     [(''k'', \<lparr>file_size = None, duration_sec = None, bitrate_kbps = Some 8,
        ranges = [(0, 29999)], counted = True, last_seen = 0\<rparr>)]
     [(1000, ''k'', 30000, 59999, None, None, Some 8)]
   \<and> fire_count ''k''
     [(''k'', \<lparr>file_size = None, duration_sec = None, bitrate_kbps = Some 8,
        ranges = [(0, 29999)], counted = True, last_seen = 0\<rparr>)]
     [(1000, ''k'', 30000, 59999, None, None, Some 8)] \<le> 1
   \<and> is_counted ''k'' (prune_play_progress 1000
     [(''k'', \<lparr>file_size = None, duration_sec = None, bitrate_kbps = Some 8,
        ranges = [(0, 29999)], counted = True, last_seen = 0\<rparr>)])
   \<and> \<not> fst (update_play_progress 1000 ''k'' 30000 59999 None None (Some 8)
     [(''k'', \<lparr>file_size = None, duration_sec = None, bitrate_kbps = Some 8,
        ranges = [(0, 29999)], counted = True, last_seen = 0\<rparr>)])
   \<and> fst (update_play_progress 0 ''k'' 0 29999 None None (Some 8) [])
   \<and> is_counted ''k'' (snd (update_play_progress 0 ''k'' 0 29999 None None (Some 8) []))"
proof -
  let ?t = "[(''k'', \<lparr>file_size = None, duration_sec = None, bitrate_kbps = Some 8,
        ranges = [(0, 29999)], counted = True, last_seen = 0\<rparr>)]"
  have p: "prune_play_progress 1000 ?t = ?t"
    by (simp add: prune_play_progress_def pop_all_def PLAY_PROGRESS_TTL_SEC_def
        PLAY_PROGRESS_MAX_def Let_def)
  have k: "entry_kept ''k'' ?t [(1000, ''k'', 30000, 59999, None, None, Some 8)]"
    by (simp add: p)
  have c: "is_counted ''k'' (prune_play_progress 1000 ?t)"
    by (simp add: p is_counted_def)
  have f: "fst (update_play_progress 0 ''k'' 0 29999 None None (Some 8) [])"
    by (simp add: update_play_progress_def prune_play_progress_def refreshed_entry_def
        merge_ranges_def seconds_from_bytes_def seconds_from_bitrate_def
        PLAY_COUNT_THRESHOLD_SEC_def Let_def)
  from k c f
    play_counted_once_while_kept[of "''k''" ?t "[(1000, ''k'', 30000, 59999, None, None, Some 8)]"
      1000 30000 59999 None None "Some 8"]
    play_counted_once_while_kept[of "''k''" "[]" "[]" 0 0 29999 None None "Some 8"]
  show ?thesis by blast
qed

section \<open>Range headers and the response\<close>

lemma direct_stream_loop_zero: "direct_stream_loop 0 cs = filter (\<lambda>c. c \<noteq> []) cs"
  by (induction cs) auto

lemma direct_stream_zero: "direct_stream 0 cs = filter (\<lambda>c. c \<noteq> []) cs"
  by (simp add: direct_stream_def direct_stream_loop_zero)

lemma concat_filter_nonempty: "concat (filter (\<lambda>c. c \<noteq> []) cs) = concat cs"
  by (induction cs) auto

lemma full_body: "concat (wrap_with_play_count is_head (direct_stream 0 cs)) = concat cs"
  by (simp add: wrap_with_play_count_def direct_stream_zero concat_filter_nonempty)

lemma stream_track_unknown_size:
  "stream_track v is_head None media =
     Inr \<lparr>status_code = 200, headers = [(''Accept-Ranges'', Token ''bytes'')],
          body = wrap_with_play_count is_head (direct_stream 0 (media 0))\<rparr>"
  by (simp add: stream_track_def Let_def split: option.splits)

lemma stream_track_no_range:
  "parse_range_header (strip v) = (None, None) \<Longrightarrow>
   stream_track v is_head fs media =
     Inr \<lparr>status_code = 200, headers = [(''Accept-Ranges'', Token ''bytes'')],
          body = wrap_with_play_count is_head (direct_stream 0 (media 0))\<rparr>"
  by (simp add: stream_track_def Let_def split: option.splits)

lemma dropWhile_id: "s = [] \<or> \<not> P (hd s) \<Longrightarrow> dropWhile P s = s"
  by (cases s) auto

lemma strip_fixed:
  assumes "s = [] \<or> (\<not> py_isspace (hd s) \<and> \<not> py_isspace (last s))"
  shows "strip s = s"
proof (cases "s = []")
  case True then show ?thesis by (simp add: strip_def)
next
  case False
  with assms have h: "\<not> py_isspace (hd s)" and l: "\<not> py_isspace (last s)" by auto
  have 1: "dropWhile py_isspace s = s" using h by (simp add: dropWhile_id)
  have "hd (rev s) = last s" using False by (simp add: hd_rev)
  then have 2: "dropWhile py_isspace (rev s) = rev s" using l by (simp add: dropWhile_id)
  show ?thesis by (simp add: strip_def 1 2)
qed

lemma hd_dropWhile_not: "dropWhile P s \<noteq> [] \<Longrightarrow> \<not> P (hd (dropWhile P s))"
  by (induction s) auto

lemma last_dropWhile: "dropWhile P s \<noteq> [] \<Longrightarrow> last (dropWhile P s) = last s"
  by (induction s) auto

lemma strip_ends:
  "strip v = [] \<or> (\<not> py_isspace (hd (strip v)) \<and> \<not> py_isspace (last (strip v)))"
proof (cases "strip v = []")
  case True then show ?thesis by simp
next
  case False
  let ?s = "dropWhile py_isspace v"
  let ?t = "dropWhile py_isspace (rev ?s)"
  have sv: "strip v = rev ?t" by (simp add: strip_def)
  with False have t: "?t \<noteq> []" by simp
  then have s: "?s \<noteq> []" by (metis dropWhile.simps(1) rev.simps(1))
  have "last (strip v) = hd ?t" using t by (simp add: sv last_rev)
  moreover have "\<not> py_isspace (hd ?t)" using t by (rule hd_dropWhile_not)
  moreover have "hd (strip v) = last ?t" using t by (simp add: sv hd_rev)
  moreover have "last ?t = last (rev ?s)" using t by (rule last_dropWhile)
  moreover have "last (rev ?s) = hd ?s" using s by (simp add: last_rev)
  moreover have "\<not> py_isspace (hd ?s)" using s by (rule hd_dropWhile_not)
  ultimately show ?thesis by simp
qed

lemma strip_strip: "strip (strip v) = strip v"
  by (rule strip_fixed) (rule strip_ends)

lemma lower_digit: "is_digit c \<Longrightarrow> lower_char c = c"
  by (simp add: is_digit_def lower_char_def)

lemma lower_digits: "list_all is_digit ds \<Longrightarrow> map lower_char ds = ds"
  by (induction ds) (auto simp: lower_digit)

lemma newline_space: "py_isspace (CHR 0x0A)"
  by (simp add: py_isspace_def)

lemma match_range_form:
  assumes m: "match_range s = Some g" and e: "s = [] \<or> \<not> py_isspace (last s)"
  shows "\<exists>ds es. ds \<noteq> [] \<and> list_all is_digit ds \<and> list_all is_digit es \<and>
        map lower_char s = ''bytes='' @ ds @ ''-'' @ es"
proof -
  let ?rest = "drop 6 s"
  let ?g1 = "takeWhile is_digit ?rest"
  from m have u: "map lower_char (take 6 s) = ''bytes=''"
    by (auto simp: match_range_def split: if_splits)
  from m u have g1: "?g1 \<noteq> []" by (auto simp: match_range_def Let_def split: if_splits)
  from m u g1 obtain rest2 where d: "dropWhile is_digit ?rest = CHR ''-'' # rest2"
    by (auto simp: match_range_def Let_def split: if_splits list.splits)
  have s: "s = take 6 s @ ?g1 @ CHR ''-'' # rest2"
    using d takeWhile_dropWhile_id[of is_digit ?rest] append_take_drop_id[of 6 s] by metis
  have nl: "\<not> (rest2 \<noteq> [] \<and> last rest2 = CHR 0x0A)"
  proof
    assume a: "rest2 \<noteq> [] \<and> last rest2 = CHR 0x0A"
    have "last s = last rest2" using a by (subst s) simp
    with a e s newline_space show False by auto
  qed
  from m u g1 d nl have r2: "list_all is_digit rest2"
    by (auto simp: match_range_def Let_def split: if_splits)
  have dg: "list_all is_digit ?g1" by (simp add: list_all_iff) (meson set_takeWhileD)
  have "map lower_char s = map lower_char (take 6 s) @ map lower_char ?g1 @ CHR ''-'' # map lower_char rest2"
    by (subst s) (simp add: lower_char_def)
  then have "map lower_char s = ''bytes='' @ ?g1 @ ''-'' @ rest2"
    by (simp add: u lower_digits[OF dg] lower_digits[OF r2])
  with g1 dg r2 show ?thesis by blast
qed

lemma parse_not_form:
  assumes "\<not> range_form v"
  shows "parse_range_header v = (None, None)"
proof -
  have "match_range (strip v) = None"
  proof (rule ccontr)
    assume "match_range (strip v) \<noteq> None"
    then obtain g where g: "match_range (strip v) = Some g" by auto
    have "strip v = [] \<or> \<not> py_isspace (last (strip v))" using strip_ends[of v] by auto
    from match_range_form[OF g this] assms show False by (auto simp: range_form_def)
  qed
  then show ?thesis by (simp add: parse_range_header_def)
qed

lemma range_form_strip: "range_form (strip v) = range_form v"
  by (simp add: range_form_def strip_strip)

lemma digits_value_nonneg_aux:
  "list_all is_digit ds \<Longrightarrow> 0 \<le> n \<Longrightarrow> 0 \<le> foldl (\<lambda>n c. 10 * n + digit_value c) n ds"
proof (induction ds arbitrary: n)
  case Nil then show ?case by simp
next
  case (Cons c ds)
  from Cons.prems have "0 \<le> 10 * n + digit_value c"
    by (simp add: is_digit_def digit_value_def)
  with Cons show ?case by simp
qed

lemma digits_value_nonneg: "list_all is_digit ds \<Longrightarrow> 0 \<le> digits_value ds"
  by (simp add: digits_value_def digits_value_nonneg_aux)

lemma match_open_range:
  assumes "ds \<noteq> []" "list_all is_digit ds"
  shows "match_range (''bytes='' @ ds @ ''-'') = Some (ds, None)"
proof -
  have nd: "\<not> is_digit CHR ''-''" by (simp add: is_digit_def)
  have t: "takeWhile is_digit (ds @ ''-'') = ds"
    using assms(2) nd by (simp add: list_all_iff takeWhile_append2)
  have d: "dropWhile is_digit (ds @ ''-'') = ''-''"
    using assms(2) nd by (simp add: list_all_iff dropWhile_append2)
  show ?thesis using assms(1) by (simp add: match_range_def lower_char_def t d)
qed

lemma strip_open_range: "strip (''bytes='' @ ds @ ''-'') = ''bytes='' @ ds @ ''-''"
  by (rule strip_fixed) (simp add: py_isspace_def)

lemma parse_open_range:
  assumes "ds \<noteq> []" "list_all is_digit ds" "length ds \<le> INT_MAX_STR_DIGITS"
  shows "parse_range_header (''bytes='' @ ds @ ''-'') = (Some (digits_value ds), None)"
proof -
  have n: "\<not> digits_value ds < 0" using digits_value_nonneg[OF assms(2)] by simp
  have p: "py_int ds = Some (digits_value ds)" using assms(3) by (simp add: py_int_def)
  have e: "''bytes='' @ ds @ ''-'' \<noteq> []" by simp
  show ?thesis
    unfolding parse_range_header_def strip_open_range match_open_range[OF assms(1,2)]
    using n p e by simp
qed

text \<open>
  Claim C2, as amended. For a request carrying \<open>Range: bytes=A-\<close> on a resource whose
  total size is unknown, the header parses as a range starting at \<open>A\<close>, and
  \<open>stream_track\<close> answers with status 200 and no \<open>Content-Range\<close> header; the body is
  the whole file from byte 0.
\<close>

theorem unknown_size_range_gets_whole_file:
  assumes "ds \<noteq> []" "list_all is_digit ds" "length ds \<le> INT_MAX_STR_DIGITS"
  shows "parse_range_header (''bytes='' @ ds @ ''-'') = (Some (digits_value ds), None)
    \<and> (\<exists>r. stream_track (''bytes='' @ ds @ ''-'') is_head None media = Inr r
          \<and> status_code r = 200
          \<and> map_of (headers r) ''Content-Range'' = None
          \<and> concat (body r) = concat (media 0))"
  using parse_open_range[OF assms]
  by (simp add: stream_track_unknown_size full_body)

theorem unknown_size_range_gets_whole_file_witness:
  "parse_range_header ''bytes=500-'' = (Some 500, None)
   \<and> (\<exists>r. stream_track ''bytes=500-'' False None
            (chunked_media [replicate 500 0 @ replicate 100 1]) = Inr r
          \<and> status_code r = 200
          \<and> map_of (headers r) ''Content-Range'' = None
          \<and> concat (body r) = replicate 500 0 @ replicate 100 1)"
proof -
  have d: "list_all is_digit ''500''" by (simp add: is_digit_def)
  have l: "length ''500'' \<le> INT_MAX_STR_DIGITS" by (simp add: INT_MAX_STR_DIGITS_def)
  have v: "digits_value ''500'' = 500" by (simp add: digits_value_def digit_value_def)
  from unknown_size_range_gets_whole_file[OF _ d l, of False
      "chunked_media [replicate 500 0 @ replicate 100 1]"]
  show ?thesis by (simp add: v chunked_media_def)
qed

text \<open>
  Claim C2 as stated fails: with the size unknown the response is the 200 path, which
  streams from byte 0, so the body of the answer to \<open>bytes=500-\<close> is not the file from
  byte 500 on.
\<close>

theorem unknown_size_body_starts_at_zero:
  "stream_track ''bytes=500-'' False None (chunked_media [replicate 500 0 @ replicate 100 1]) =
     Inr \<lparr>status_code = 200, headers = [(''Accept-Ranges'', Token ''bytes'')],
          body = [replicate 500 0 @ replicate 100 1]\<rparr>
   \<and> concat [replicate 500 0 @ replicate 100 (1 :: 8 word)]
       \<noteq> drop 500 (replicate 500 0 @ replicate 100 1)"
proof -
  have "length (concat [replicate 500 0 @ replicate 100 (1 :: 8 word)])
      \<noteq> length (drop 500 (replicate 500 (0 :: 8 word) @ replicate 100 1))" by simp
  then have "concat [replicate 500 0 @ replicate 100 (1 :: 8 word)]
       \<noteq> drop 500 (replicate 500 0 @ replicate 100 1)" by metis
  then show ?thesis
    by (simp add: stream_track_unknown_size wrap_with_play_count_def direct_stream_zero
        chunked_media_def)
qed

lemma suffix_range_not_form: "\<not> range_form ''bytes=-500''"
proof
  have s1: "strip ''bytes=-500'' = ''bytes=-500''"
    by (rule strip_fixed) (simp add: py_isspace_def)
  assume "range_form ''bytes=-500''"
  then obtain ds es where ds: "ds \<noteq> []" "list_all is_digit ds"
    and eq: "''bytes=-500'' = ''bytes='' @ ds @ ''-'' @ es"
    by (auto simp: range_form_def s1 lower_char_def)
  from eq have "''-500'' = ds @ ''-'' @ es" by simp
  with ds(1) have "hd ds = CHR ''-''" by (cases ds) auto
  with ds show False by (cases ds) (auto simp: is_digit_def)
qed

lemma multi_range_not_form: "\<not> range_form ''bytes=0-1,5-6''"
proof
  have s2: "strip ''bytes=0-1,5-6'' = ''bytes=0-1,5-6''"
    by (rule strip_fixed) (simp add: py_isspace_def)
  assume "range_form ''bytes=0-1,5-6''"
  then obtain ds es where ds: "ds \<noteq> []" "list_all is_digit ds" and es: "list_all is_digit es"
    and eq: "''bytes=0-1,5-6'' = ''bytes='' @ ds @ ''-'' @ es"
    by (auto simp: range_form_def s2 lower_char_def)
  from eq have e2: "''0-1,5-6'' = ds @ ''-'' @ es" by simp
  from ds e2 obtain ds' where dd: "ds = CHR ''0'' # ds'" by (cases ds) auto
  with e2 have e3: "''-1,5-6'' = ds' @ ''-'' @ es" by simp
  have "ds' = []"
  proof (cases ds')
    case Nil then show ?thesis .
  next
    case (Cons c cs)
    with e3 have "c = CHR ''-''" by simp
    with ds(2) dd Cons show ?thesis by (simp add: is_digit_def)
  qed
  with e3 have "es = ''1,5-6''" by simp
  with es show False by (simp add: is_digit_def)
qed

text \<open>
  Claim C10. A header value that is not of the form \<open>bytes=<digits>-\<close> or
  \<open>bytes=<digits>-<digits>\<close> (trimmed, the unit in any case) makes
  \<open>_parse_range_header\<close> return \<open>(None, None)\<close>; suffix ranges such as \<open>bytes=-500\<close>
  and lists such as \<open>bytes=0-1,5-6\<close> are among them. \<open>stream_track\<close> then answers as if
  there were no \<open>Range\<close>: status 200, no \<open>Content-Range\<close>, the whole file as the body,
  whatever the size of the file; it does not answer 206 or 416.
\<close>

theorem malformed_range_is_ignored:
  assumes "\<not> range_form v"
  shows "parse_range_header v = (None, None)
    \<and> stream_track v is_head fsize media =
        Inr \<lparr>status_code = 200, headers = [(''Accept-Ranges'', Token ''bytes'')],
             body = wrap_with_play_count is_head (direct_stream 0 (media 0))\<rparr>
    \<and> concat (wrap_with_play_count is_head (direct_stream 0 (media 0))) = concat (media 0)
    \<and> \<not> range_form ''bytes=-500''
    \<and> \<not> range_form ''bytes=0-1,5-6''"
proof -
  have a: "parse_range_header v = (None, None)" using assms by (rule parse_not_form)
  have "\<not> range_form (strip v)" using assms by (simp add: range_form_strip)
  then have "parse_range_header (strip v) = (None, None)" by (rule parse_not_form)
  then have b: "stream_track v is_head fsize media =
        Inr \<lparr>status_code = 200, headers = [(''Accept-Ranges'', Token ''bytes'')],
             body = wrap_with_play_count is_head (direct_stream 0 (media 0))\<rparr>"
    by (rule stream_track_no_range)
  from a b suffix_range_not_form multi_range_not_form show ?thesis by (simp add: full_body)
qed

theorem malformed_range_is_ignored_witness:
  "\<not> range_form ''bytes=-500''
   \<and> parse_range_header ''bytes=-500'' = (None, None)
   \<and> stream_track ''bytes=-500'' False (Some 5) (chunked_media [[1, 2, 3], [4, 5]]) =
        Inr \<lparr>status_code = 200, headers = [(''Accept-Ranges'', Token ''bytes'')],
             body = [[1, 2, 3], [4, 5]]\<rparr>"
proof -
  note n = suffix_range_not_form
  from malformed_range_is_ignored[OF n, of False "Some 5" "chunked_media [[1, 2, 3], [4, 5]]"] n
  show ?thesis
    by (simp add: wrap_with_play_count_def direct_stream_zero chunked_media_def)
qed

section \<open>Loads of the connection pool\<close>

lemma list_min_Min: "xs \<noteq> [] \<Longrightarrow> list_min xs = Min (set xs)"
proof (cases xs)
  case Nil
  assume "xs \<noteq> []"
  with Nil show ?thesis by simp
next
  case (Cons a list)
  show ?thesis unfolding Cons list_min.simps by (rule Min.set_eq_fold[symmetric])
qed

lemma list_min_in: "xs \<noteq> [] \<Longrightarrow> list_min xs \<in> set xs"
  by (simp add: list_min_Min)

lemma list_min_le: "x \<in> set xs \<Longrightarrow> list_min xs \<le> x"
  by (cases "xs = []") (simp_all add: list_min_Min)

lemma set_update_subset: "set (AList.update k v al) \<subseteq> insert (k, v) (set al)"
  by (induction al) auto

lemma keys_update_present:
  "k \<in> fst ` set al \<Longrightarrow> map fst (AList.update k v al) = map fst al"
  by (induction al) auto

lemma load_of_update:
  "load_of (p\<lparr>work_loads := AList.update k v (work_loads p)\<rparr>) c = (if c = k then v else load_of p c)"
  by (simp add: load_of_def update_conv')

lemma load_of_update_cursor:
  "load_of (p\<lparr>work_loads := AList.update k v (work_loads p), rr_cursor := r\<rparr>) c =
     (if c = k then v else load_of p c)"
  by (simp add: load_of_def update_conv')

lemma load_nonneg: "loads_nonneg p \<Longrightarrow> 0 \<le> load_of p c"
proof -
  assume a: "loads_nonneg p"
  show ?thesis
  proof (cases "map_of (work_loads p) c")
    case None then show ?thesis by (simp add: load_of_def)
  next
    case (Some v)
    then have "(c, v) \<in> set (work_loads p)" by (rule map_of_SomeD)
    with a have "0 \<le> v" by (auto simp: loads_nonneg_def list_all_iff)
    with Some show ?thesis by (simp add: load_of_def)
  qed
qed

lemma nonneg_update:
  "loads_nonneg p \<Longrightarrow> 0 \<le> v \<Longrightarrow> list_all (\<lambda>(c, v). 0 \<le> v) (AList.update k v (work_loads p))"
  using set_update_subset[of k v "work_loads p"]
  by (auto simp: loads_nonneg_def list_all_iff)

lemma select_nonneg:
  assumes "loads_nonneg p" "select_client p cs = Inr (cid, p')"
  shows "loads_nonneg p'"
proof -
  have "\<And>c. list_all (\<lambda>(c, v). 0 \<le> v) (AList.update c (load_of p c + 1) (work_loads p))"
    using nonneg_update[OF assms(1)] load_nonneg[OF assms(1)] by (simp add: add_nonneg_nonneg)
  with assms(2) show ?thesis
    by (auto simp: select_client_def Let_def loads_nonneg_def split: if_splits option.splits)
qed

lemma release_nonneg: "loads_nonneg p \<Longrightarrow> loads_nonneg (release_stream_client c p)"
  using nonneg_update[of p]
  by (auto simp: release_stream_client_def Let_def loads_nonneg_def)

lemma step_nonneg: "loads_nonneg p \<Longrightarrow> loads_nonneg (pool_step op p)"
proof (cases op)
  case Acquire
  assume "loads_nonneg p"
  then show ?thesis using select_nonneg[of p]
    by (auto simp: Acquire acquire_stream_client_def split: sum.splits if_splits)
next
  case (AcquirePrefer ids)
  assume "loads_nonneg p"
  then show ?thesis using select_nonneg[of p]
    by (auto simp: AcquirePrefer acquire_stream_client_prefer_def Let_def split: sum.splits if_splits)
next
  case (Release c)
  assume "loads_nonneg p"
  then show ?thesis by (simp add: Release release_nonneg)
qed

lemma run_nonneg: "loads_nonneg p \<Longrightarrow> loads_nonneg (pool_run ops p)"
  unfolding pool_run_def by (induction ops arbitrary: p) (simp_all add: step_nonneg)

lemma select_least:
  assumes "cs \<noteq> []"
  shows "\<exists>cid. select_client p cs =
            Inr (cid, p\<lparr>work_loads := AList.update cid (load_of p cid + 1) (work_loads p),
                        rr_cursor := cid\<rparr>)
          \<and> cid \<in> set cs \<and> (\<forall>c \<in> set cs. load_of p cid \<le> load_of p c)"
proof -
  define m where "m = list_min (map (load_of p) cs)"
  define tied where "tied = sort (filter (\<lambda>c. load_of p c = m) cs)"
  define i where "i = (if rr_cursor p \<in> set tied then (index_of tied (rr_cursor p) + 1) mod length tied else 0)"
  have "m \<in> set (map (load_of p) cs)" unfolding m_def using assms by (intro list_min_in) simp
  then obtain c0 where "c0 \<in> set cs" "load_of p c0 = m" by auto
  then have "c0 \<in> set tied" by (simp add: tied_def)
  then have ne: "tied \<noteq> []" by auto
  then have "i < length tied" by (simp add: i_def)
  then have "tied ! i \<in> set tied" by (rule nth_mem)
  then have in_cs: "tied ! i \<in> set cs" and ld: "load_of p (tied ! i) = m" by (auto simp: tied_def)
  have le: "\<forall>c \<in> set cs. m \<le> load_of p c" unfolding m_def by (auto intro: list_min_le)
  have "select_client p cs =
      Inr (tied ! i, p\<lparr>work_loads := AList.update (tied ! i) (load_of p (tied ! i) + 1) (work_loads p),
                        rr_cursor := tied ! i\<rparr>)"
    using assms ne by (simp add: select_client_def Let_def m_def[symmetric] tied_def[symmetric] i_def)
  with in_cs ld le show ?thesis by auto
qed

lemma base_candidates_keys: "set (base_candidates p) \<subseteq> fst ` set (work_loads p)"
  by (auto simp: base_candidates_def Let_def)

lemma base_candidates_update:
  "k \<in> fst ` set (work_loads p) \<Longrightarrow>
   base_candidates (p\<lparr>work_loads := AList.update k v (work_loads p), rr_cursor := r\<rparr>) = base_candidates p"
  by (simp add: base_candidates_def Let_def keys_update_present)

lemma acquire_least:
  assumes "acquire_stream_client p = Inr (cid, p')"
  shows "cid \<in> set (base_candidates p) \<and> (\<forall>c \<in> set (base_candidates p). load_of p cid \<le> load_of p c)
    \<and> load_of p' cid = load_of p cid + 1 \<and> (\<forall>c. c \<noteq> cid \<longrightarrow> load_of p' c = load_of p c)
    \<and> base_candidates p' = base_candidates p"
proof -
  from assms have en: "streaming_enabled p" and s: "select_client p (base_candidates p) = Inr (cid, p')"
    by (auto simp: acquire_stream_client_def split: if_splits)
  have ne: "base_candidates p \<noteq> []"
    using s by (auto simp: select_client_def)
  from select_least[OF ne, of p] s
  have p': "p' = p\<lparr>work_loads := AList.update cid (load_of p cid + 1) (work_loads p), rr_cursor := cid\<rparr>"
    and c: "cid \<in> set (base_candidates p)" and l: "\<forall>c \<in> set (base_candidates p). load_of p cid \<le> load_of p c"
    by auto
  from c base_candidates_keys have k: "cid \<in> fst ` set (work_loads p)" by blast
  show ?thesis using c l by (simp add: p' load_of_update_cursor base_candidates_update[OF k])
qed

lemma acquire_balanced:
  assumes "balanced p (base_candidates p)"
  shows "balanced (pool_step Acquire p) (base_candidates p)
    \<and> base_candidates (pool_step Acquire p) = base_candidates p"
proof (cases "acquire_stream_client p")
  case (Inl e)
  with assms show ?thesis by simp
next
  case (Inr r)
  obtain cid p' where r: "r = (cid, p')" by (cases r)
  from acquire_least[OF Inr[unfolded r]]
  have c: "cid \<in> set (base_candidates p)"
    and l: "\<forall>c \<in> set (base_candidates p). load_of p cid \<le> load_of p c"
    and u: "load_of p' cid = load_of p cid + 1" "\<forall>c. c \<noteq> cid \<longrightarrow> load_of p' c = load_of p c"
    and b: "base_candidates p' = base_candidates p" by auto
  have "balanced p' (base_candidates p)"
    unfolding balanced_def list_all_iff
  proof (intro ballI)
    fix a b assume ab: "a \<in> set (base_candidates p)" "b \<in> set (base_candidates p)"
    from assms ab have old: "load_of p a \<le> load_of p b + 1"
      by (auto simp: balanced_def list_all_iff)
    from l ab have "load_of p cid \<le> load_of p b" by simp
    with old u show "load_of p' a \<le> load_of p' b + 1"
      by (cases "a = cid"; cases "b = cid") auto
  qed
  with Inr r b show ?thesis by simp
qed

lemma idle_balanced: "idle p \<Longrightarrow> balanced p cs"
proof -
  assume i: "idle p"
  have "\<And>c. load_of p c = 0"
  proof -
    fix c show "load_of p c = 0"
    proof (cases "map_of (work_loads p) c")
      case None then show ?thesis by (simp add: load_of_def)
    next
      case (Some v)
      then have "(c, v) \<in> set (work_loads p)" by (rule map_of_SomeD)
      with i Some show ?thesis by (auto simp: idle_def list_all_iff load_of_def)
    qed
  qed
  then show ?thesis by (simp add: balanced_def list_all_iff)
qed

lemma acquires_balanced:
  "balanced p (base_candidates p) \<Longrightarrow>
   balanced (pool_run (replicate n Acquire) p) (base_candidates p)"
  unfolding pool_run_def
proof (induction n arbitrary: p)
  case 0 then show ?case by simp
next
  case (Suc n)
  from acquire_balanced[OF Suc.prems] Suc.IH[of "pool_step Acquire p"]
  show ?case by simp
qed

text \<open>
  Claim C6, as amended. Over every sequence of acquires, preferring acquires and releases,
  no load ever drops below zero. An acquire without preference increments a candidate of
  least load, the candidates being all handles, or all but the primary one when
  \<open>MULTI_CLIENTS\<close> is on and more than one handle is registered. So from a pool whose
  loads are all zero, after any number of acquires with no release in between, the loads of
  any two candidates differ by at most one.
\<close>

theorem pool_loads_bounded:
  "(loads_nonneg p \<longrightarrow> loads_nonneg (pool_run ops p))
   \<and> (acquire_stream_client p = Inr (cid, p') \<longrightarrow>
        cid \<in> set (base_candidates p)
        \<and> (\<forall>c \<in> set (base_candidates p). load_of p cid \<le> load_of p c)
        \<and> load_of p' cid = load_of p cid + 1)
   \<and> (idle p \<longrightarrow> balanced (pool_run (replicate n Acquire) p) (base_candidates p))
   \<and> (\<not> multi_clients_enabled p \<longrightarrow> base_candidates p = map fst (work_loads p))"
proof -
  have a: "loads_nonneg p \<longrightarrow> loads_nonneg (pool_run ops p)" by (simp add: run_nonneg)
  have b: "acquire_stream_client p = Inr (cid, p') \<longrightarrow>
        cid \<in> set (base_candidates p)
        \<and> (\<forall>c \<in> set (base_candidates p). load_of p cid \<le> load_of p c)
        \<and> load_of p' cid = load_of p cid + 1"
    using acquire_least[of p cid p'] by blast
  have c: "idle p \<longrightarrow> balanced (pool_run (replicate n Acquire) p) (base_candidates p)"
    using acquires_balanced[OF idle_balanced] by blast
  have d: "\<not> multi_clients_enabled p \<longrightarrow> base_candidates p = map fst (work_loads p)"
    by (simp add: base_candidates_def)
  from a b c d show ?thesis by blast
qed

lemma two_handles_first_acquire:
  "acquire_stream_client
     \<lparr>work_loads = [(1, 0), (2, 0)], rr_cursor = 0, primary_user_id = Some 1,
      multi_clients_enabled = False, streaming_enabled = True\<rparr>
   = Inr (1, \<lparr>work_loads = [(1, 1), (2, 0)], rr_cursor = 1, primary_user_id = Some 1,
      multi_clients_enabled = False, streaming_enabled = True\<rparr>)"
  by (simp add: acquire_stream_client_def select_client_def base_candidates_def load_of_def Let_def)

theorem pool_loads_bounded_witness:
  "loads_nonneg (pool_run [Acquire, Release 1, Release 1]
     \<lparr>work_loads = [(1, 0), (2, 0)], rr_cursor = 0, primary_user_id = Some 1,
      multi_clients_enabled = False, streaming_enabled = True\<rparr>)
   \<and> balanced (pool_run (replicate 3 Acquire)
     \<lparr>work_loads = [(1, 0), (2, 0)], rr_cursor = 0, primary_user_id = Some 1,
      multi_clients_enabled = False, streaming_enabled = True\<rparr>) [1, 2]
   \<and> load_of \<lparr>work_loads = [(1, 1), (2, 0)], rr_cursor = 1, primary_user_id = Some 1,
      multi_clients_enabled = False, streaming_enabled = True\<rparr> 1 = 1"
proof -
  let ?p = "\<lparr>work_loads = [(1, 0), (2, 0)], rr_cursor = 0, primary_user_id = Some 1,
      multi_clients_enabled = False, streaming_enabled = True\<rparr>"
  let ?p' = "\<lparr>work_loads = [(1, 1), (2, 0)], rr_cursor = 1, primary_user_id = Some 1,
      multi_clients_enabled = False, streaming_enabled = True\<rparr>"
  have n: "loads_nonneg ?p" by (simp add: loads_nonneg_def)
  have i: "idle ?p" by (simp add: idle_def)
  have m: "\<not> multi_clients_enabled ?p" by simp
  have b: "base_candidates ?p = [1, 2]" by (simp add: base_candidates_def)
  have l: "load_of ?p 1 = 0" by (simp add: load_of_def)
  from pool_loads_bounded[of ?p "[Acquire, Release 1, Release 1]" 1 ?p' 3]
    n i m two_handles_first_acquire b l
  show ?thesis by simp
qed

text \<open>
  Claim C6 as stated fails in two ways. Releases are free to empty one handle while
  another keeps its load: after four acquires and two releases of handle 1, the loads are
  0 and 2. And with \<open>MULTI_CLIENTS\<close> on, acquires never choose the primary handle while
  another is registered: after four acquires its load is 0 and the others' is 2.
\<close>

theorem pool_unbalanced:
  "work_loads (pool_run [Acquire, Acquire, Acquire, Acquire, Release 1, Release 1]
     \<lparr>work_loads = [(1, 0), (2, 0)], rr_cursor = 0, primary_user_id = Some 1,
      multi_clients_enabled = False, streaming_enabled = True\<rparr>) = [(1, 0), (2, 2)]
   \<and> work_loads (pool_run [Acquire, Acquire, Acquire, Acquire]
     \<lparr>work_loads = [(1, 0), (2, 0), (3, 0)], rr_cursor = 0, primary_user_id = Some 1,
      multi_clients_enabled = True, streaming_enabled = True\<rparr>) = [(1, 0), (2, 2), (3, 2)]"
  by (simp add: pool_run_def acquire_stream_client_def select_client_def base_candidates_def
      release_stream_client_def load_of_def Let_def)

section \<open>The hub's buffer\<close>

subsection \<open>Garbage collection changes only the deque and the lagged set\<close>

lemma drop_consumed_fields:
  "total_written (drop_consumed h) = total_written h"
  "consumers (drop_consumed h) = consumers h"
  "finished (drop_consumed h) = finished h"
  "failure (drop_consumed h) = failure h"
  "lagged (drop_consumed h) = lagged h"
  by (simp_all add: drop_consumed_def)

lemma drop_forced_fields:
  "total_written (drop_forced h) = total_written h"
  "consumers (drop_forced h) = consumers h"
  "finished (drop_forced h) = finished h"
  "failure (drop_forced h) = failure h"
  by (simp_all add: drop_forced_def Let_def)

lemma gc_fields:
  "total_written (gc_locked h) = total_written h"
  "consumers (gc_locked h) = consumers h"
  "finished (gc_locked h) = finished h"
  "failure (gc_locked h) = failure h"
  by (simp_all add: gc_locked_def Let_def drop_consumed_fields drop_forced_fields)

lemma drop_forced_chunks:
  "chunks (drop_forced h) = dropWhile (\<lambda>c. chunk_end c \<le> keep_from h) (chunks h)"
  by (simp add: drop_forced_def Let_def)

lemma drop_consumed_chunks:
  "chunks (drop_consumed h) = dropWhile (\<lambda>c. chunk_end c \<le> min_offset h) (chunks h)"
  by (simp add: drop_consumed_def)

lemma keep_from_drop_consumed: "keep_from (drop_consumed h) = keep_from h"
  by (simp add: keep_from_def drop_consumed_fields)

lemma gc_chunks:
  "chunks (gc_locked h) =
     (if over_cap (drop_consumed h)
      then dropWhile (\<lambda>c. chunk_end c \<le> keep_from h)
             (dropWhile (\<lambda>c. chunk_end c \<le> min_offset h) (chunks h))
      else dropWhile (\<lambda>c. chunk_end c \<le> min_offset h) (chunks h))"
  by (simp add: gc_locked_def Let_def drop_forced_chunks drop_consumed_chunks keep_from_drop_consumed)

lemma gc_lagged_mono: "lagged h \<subseteq> lagged (gc_locked h)"
  by (auto simp: gc_locked_def Let_def drop_forced_def drop_consumed_fields)

subsection \<open>Chains of chunks\<close>

lemma chained_le: "chained s cs e \<Longrightarrow> s \<le> e"
proof (induction cs arbitrary: s)
  case Nil then show ?case by simp
next
  case (Cons c cs)
  then have "chunk_end c \<le> e" by simp
  moreover from Cons.prems have "fst c < chunk_end c" by (simp add: chunk_end_def)
  moreover from Cons.prems have "fst c = s" by simp
  ultimately show ?case by simp
qed

lemma chained_member:
  "chained s cs e \<Longrightarrow> c \<in> set cs \<Longrightarrow> s \<le> fst c \<and> fst c < chunk_end c \<and> chunk_end c \<le> e"
proof (induction cs arbitrary: s)
  case Nil then show ?case by simp
next
  case (Cons x cs)
  from Cons.prems(1) have "snd x \<noteq> []" by simp
  then have lt: "fst x < chunk_end x" by (simp add: chunk_end_def)
  from Cons.prems(1) lt have x: "fst x = s" "fst x < chunk_end x" "chained (chunk_end x) cs e"
    by simp_all
  show ?case
  proof (cases "c = x")
    case True
    with x chained_le[OF x(3)] show ?thesis by simp
  next
    case False
    with Cons.prems(2) have "c \<in> set cs" by simp
    from Cons.IH[OF x(3) this] x show ?thesis by simp
  qed
qed

lemma chained_dropWhile:
  "chained s cs e \<Longrightarrow>
   chained (case dropWhile P cs of [] \<Rightarrow> e | c # r \<Rightarrow> fst c) (dropWhile P cs) e
   \<and> s \<le> (case dropWhile P cs of [] \<Rightarrow> e | c # r \<Rightarrow> fst c)"
proof (induction cs arbitrary: s)
  case Nil then show ?case by simp
next
  case (Cons x cs)
  from Cons.prems have "snd x \<noteq> []" by simp
  then have lt: "fst x < chunk_end x" by (simp add: chunk_end_def)
  from Cons.prems lt have x: "fst x = s" "fst x < chunk_end x" "chained (chunk_end x) cs e"
    by simp_all
  show ?case
  proof (cases "P x")
    case True
    with Cons.IH[OF x(3)] x show ?thesis by simp
  next
    case False
    with Cons.prems show ?thesis by simp
  qed
qed

lemma chained_snoc:
  "chained s cs e \<Longrightarrow> d \<noteq> [] \<Longrightarrow> chained s (cs @ [(e, d)]) (e + int (length d))"
  by (induction cs arbitrary: s) (auto simp: chunk_end_def)

lemma chained_dropped_below:
  "chained s cs e \<Longrightarrow> c \<in> set (takeWhile P cs) \<Longrightarrow>
   chunk_end c \<le> (case dropWhile P cs of [] \<Rightarrow> e | c # r \<Rightarrow> fst c)"
proof (induction cs arbitrary: s)
  case Nil then show ?case by simp
next
  case (Cons x cs)
  from Cons.prems(1) have x: "chained (chunk_end x) cs e" by simp
  from Cons.prems(2) have px: "P x" by (auto split: if_splits)
  have le: "chunk_end x \<le> (case dropWhile P cs of [] \<Rightarrow> e | c # r \<Rightarrow> fst c)"
    using chained_dropWhile[OF x, of P] by simp
  show ?case
  proof (cases "c = x")
    case True with le px show ?thesis by simp
  next
    case False
    with Cons.prems(2) px have "c \<in> set (takeWhile P cs)" by simp
    from Cons.IH[OF x this] px show ?thesis by simp
  qed
qed

subsection \<open>Well-formedness is kept\<close>

lemma same_buffer:
  assumes "chunks h' = chunks h" "total_written h' = total_written h"
  shows "buffer_start h' = buffer_start h" "hub_wf h' = hub_wf h"
  using assms by (cases "chunks h"; simp add: hub_wf_def buffer_start_def)+

lemma buffer_start_chunks:
  "buffer_start (h\<lparr>chunks := cs\<rparr>) = (case cs of [] \<Rightarrow> total_written h | c # r \<Rightarrow> fst c)"
  by (cases cs) (simp_all add: buffer_start_def)

lemma wf_dropWhile:
  assumes "hub_wf h"
  shows "hub_wf (h\<lparr>chunks := dropWhile P (chunks h)\<rparr>)
    \<and> buffer_start h \<le> buffer_start (h\<lparr>chunks := dropWhile P (chunks h)\<rparr>)"
proof -
  let ?b = "case dropWhile P (chunks h) of [] \<Rightarrow> total_written h | c # r \<Rightarrow> fst c"
  have b: "buffer_start (h\<lparr>chunks := dropWhile P (chunks h)\<rparr>) = ?b"
    by (rule buffer_start_chunks)
  from assms chained_dropWhile[of "buffer_start h" "chunks h" "total_written h" P]
  have "chained ?b (dropWhile P (chunks h)) (total_written h)" "buffer_start h \<le> ?b"
    by (simp_all add: hub_wf_def)
  with assms show ?thesis unfolding hub_wf_def b by simp
qed

lemma wf_lagged: "hub_wf (h\<lparr>lagged := L\<rparr>) = hub_wf h"
  by (rule same_buffer) simp_all

lemma buffer_start_lagged: "buffer_start (h\<lparr>lagged := L\<rparr>) = buffer_start h"
  by (rule same_buffer) simp_all

lemma wf_consumers: "hub_wf (h\<lparr>consumers := C\<rparr>) = hub_wf h"
  by (rule same_buffer) simp_all

lemma buffer_start_consumers: "buffer_start (h\<lparr>consumers := C\<rparr>) = buffer_start h"
  by (rule same_buffer) simp_all

lemma wf_drop_consumed:
  "hub_wf h \<Longrightarrow> hub_wf (drop_consumed h) \<and> buffer_start h \<le> buffer_start (drop_consumed h)"
  unfolding drop_consumed_def by (rule wf_dropWhile)

lemma wf_drop_forced:
  "hub_wf h \<Longrightarrow> hub_wf (drop_forced h) \<and> buffer_start h \<le> buffer_start (drop_forced h)"
  using wf_dropWhile[of h "\<lambda>c. chunk_end c \<le> keep_from h"]
  by (auto simp: drop_forced_def Let_def wf_lagged buffer_start_lagged)

lemma wf_gc: "hub_wf h \<Longrightarrow> hub_wf (gc_locked h) \<and> buffer_start h \<le> buffer_start (gc_locked h)"
proof -
  assume w: "hub_wf h"
  from wf_drop_consumed[OF w] have 1: "hub_wf (drop_consumed h)"
    and 2: "buffer_start h \<le> buffer_start (drop_consumed h)" by auto
  from wf_drop_forced[OF 1] 1 2 show ?thesis by (auto simp: gc_locked_def Let_def)
qed

lemma wf_init: "hub_wf hub_init"
  by (simp add: hub_wf_def hub_init_def buffer_start_def)

lemma wf_append:
  assumes "hub_wf h"
  shows "hub_wf (append_chunk data h) \<and> buffer_start h \<le> buffer_start (append_chunk data h)"
proof (cases "data = []")
  case True
  with assms show ?thesis by (simp add: append_chunk_def)
next
  case False
  let ?h = "h\<lparr>total_written := total_written h + int (length data),
              chunks := chunks h @ [(total_written h, data)]\<rparr>"
  have b: "buffer_start ?h = buffer_start h"
    by (cases "chunks h") (simp_all add: buffer_start_def)
  have "chained (buffer_start h) (chunks h @ [(total_written h, data)])
          (total_written h + int (length data))"
    using assms False by (intro chained_snoc) (simp_all add: hub_wf_def)
  then have "hub_wf ?h" using assms b by (simp add: hub_wf_def)
  from wf_gc[OF this] b False show ?thesis by (simp add: append_chunk_def)
qed

lemma wf_register:
  "hub_wf h \<Longrightarrow> hub_wf (register cid s h) \<and> buffer_start h \<le> buffer_start (register cid s h)"
  by (simp add: register_def wf_consumers buffer_start_consumers)

lemma wf_unregister:
  assumes "hub_wf h"
  shows "hub_wf (unregister cid h) \<and> buffer_start h \<le> buffer_start (unregister cid h)"
proof -
  let ?h = "h\<lparr>consumers := AList.delete cid (consumers h), lagged := lagged h - {cid}\<rparr>"
  have "hub_wf ?h = hub_wf h" and "buffer_start ?h = buffer_start h"
    by (rule same_buffer; simp)+
  with assms wf_gc[of ?h] show ?thesis by (simp add: unregister_def)
qed

lemma iter_step_yield:
  assumes "iter_step cid s h = Yielded out h'"
  shows "\<exists>offset c. offset = (case map_of (consumers h) cid of None \<Rightarrow> s | Some off \<Rightarrow> off)
      \<and> find_chunk offset (chunks h) = Some c
      \<and> out = (if offset - fst c > 0 then drop (nat (offset - fst c)) (snd c) else snd c)
      \<and> h' = gc_locked (h\<lparr>consumers := AList.update cid (offset + int (length out)) (consumers h)\<rparr>)
      \<and> cid \<notin> lagged h \<and> failure h = None"
  using assms
  by (auto simp: iter_step_def Let_def split: if_splits option.splits)

lemma wf_read:
  assumes "hub_wf h"
  shows "hub_wf (hub_step (Read cid s) h) \<and> buffer_start h \<le> buffer_start (hub_step (Read cid s) h)"
proof (cases "iter_step cid s h")
  case (Yielded out h')
  from iter_step_yield[OF this] obtain v where
    h': "h' = gc_locked (h\<lparr>consumers := AList.update cid v (consumers h)\<rparr>)" by blast
  let ?h = "h\<lparr>consumers := AList.update cid v (consumers h)\<rparr>"
  have "hub_wf ?h" "buffer_start ?h = buffer_start h"
    using assms by (simp_all add: wf_consumers buffer_start_consumers)
  with wf_gc[of ?h] show ?thesis by (simp add: Yielded h')
qed (use assms in simp_all)

lemma wf_step:
  "hub_wf h \<Longrightarrow> hub_wf (hub_step ev h) \<and> buffer_start h \<le> buffer_start (hub_step ev h)"
proof (cases ev)
  case (Append d) assume "hub_wf h" then show ?thesis using wf_append by (simp add: Append)
next
  case (Fail e) assume "hub_wf h" then show ?thesis
    using same_buffer[of "h\<lparr>failure := Some e\<rparr>" h] by (simp add: Fail)
next
  case Exit assume "hub_wf h" then show ?thesis
    using same_buffer[of "h\<lparr>finished := True\<rparr>" h] by (simp add: Exit)
next
  case (Register c s) assume "hub_wf h" then show ?thesis using wf_register by (simp add: Register)
next
  case (Read c s) assume "hub_wf h" then show ?thesis using wf_read by (simp add: Read)
next
  case (Leave c) assume "hub_wf h" then show ?thesis using wf_unregister by (simp add: Leave)
qed

lemma wf_run: "hub_wf h \<Longrightarrow> hub_wf (hub_run evs h)"
  unfolding hub_run_def by (induction evs arbitrary: h) (simp_all add: wf_step)

lemma hub_run_snoc: "hub_run (evs @ [ev]) h = hub_step ev (hub_run evs h)"
  by (simp add: hub_run_def)

lemma buffer_start_run_mono: "hub_wf h \<Longrightarrow> buffer_start h \<le> buffer_start (hub_run evs h)"
  unfolding hub_run_def
proof (induction evs arbitrary: h)
  case Nil then show ?case by simp
next
  case (Cons ev evs)
  from wf_step[OF Cons.prems, of ev] Cons.IH[of "hub_step ev h"] show ?case by simp
qed

lemma hub_run_append: "hub_run (evs @ evs2) h = hub_run evs2 (hub_run evs h)"
  by (simp add: hub_run_def)

lemma gc_bound:
  "total_written (gc_locked h) - buffer_start (gc_locked h) \<le> MAX_STREAM_BUFFER_BYTES
   \<or> (\<exists>c r. chunks (gc_locked h) = c # r
        \<and> total_written (gc_locked h) - chunk_end c < MAX_STREAM_BUFFER_BYTES)"
proof (cases "over_cap (drop_consumed h)")
  case False
  then show ?thesis by (simp add: gc_locked_def over_cap_def)
next
  case True
  let ?h1 = "drop_consumed h"
  let ?cs = "dropWhile (\<lambda>c. chunk_end c \<le> keep_from ?h1) (chunks ?h1)"
  have g: "gc_locked h = drop_forced ?h1" using True by (simp add: gc_locked_def)
  have c: "chunks (gc_locked h) = ?cs" by (simp add: g drop_forced_chunks)
  have t: "total_written (gc_locked h) = total_written ?h1" by (simp add: g drop_forced_fields)
  show ?thesis
  proof (cases ?cs)
    case Nil
    have "buffer_start (gc_locked h) = total_written (gc_locked h)"
      unfolding buffer_start_def c Nil by simp
    then show ?thesis by (simp add: MAX_STREAM_BUFFER_BYTES_def)
  next
    case (Cons x r)
    then have "x = hd ?cs" "?cs \<noteq> []" by simp_all
    then have "\<not> chunk_end x \<le> keep_from ?h1" using hd_dropWhile[of "\<lambda>c. chunk_end c \<le> keep_from ?h1" "chunks ?h1"] by simp
    then have "total_written (gc_locked h) - chunk_end x < MAX_STREAM_BUFFER_BYTES"
      by (simp add: keep_from_def t)
    with Cons c show ?thesis by simp
  qed
qed

lemma mebibyte_length: "length mebibyte_chunk = 1048576"
  by (simp add: mebibyte_chunk_def)

lemma mebibyte_nonempty: "mebibyte_chunk \<noteq> []"
  using mebibyte_length by auto

lemma replicate_24:
  "replicate 24 x = [x, x, x, x, x, x, x, x, x, x, x, x, x, x, x, x, x, x, x, x, x, x, x, x]"
  by (simp add: eval_nat_numeral)

lemma cap_trace_state:
  "hub_run (Register ''1'' 0 # replicate 24 (Append mebibyte_chunk)) hub_init =
     \<lparr>chunks = map (\<lambda>i. (i * 1048576, mebibyte_chunk)) [0..23],
      total_written = 25165824, finished = False, failure = None,
      consumers = [(''1'', 0)], lagged = {}\<rparr>"
  by (simp add: hub_run_def hub_init_def register_def append_chunk_def gc_locked_def
      drop_consumed_def drop_forced_def over_cap_def keep_from_def min_offset_def buffer_start_def
      chunk_end_def mebibyte_length mebibyte_nonempty MAX_STREAM_BUFFER_BYTES_def Let_def upto.simps
      replicate_24 del: fold_replicate)

text \<open>
  Claim C3, as amended. In every hub the buffer start (the offset of the first retained
  chunk, or \<open>_total_written\<close> when the buffer is empty) never decreases, whatever the
  producer and the consumers do. When an eviction pass returns, either the retained bytes
  are within the cap of 25,000,000, or the first retained chunk is the only excess: the
  bytes after it are fewer than the cap, because a chunk that reaches beyond \<open>keep_from\<close>
  is kept whole.
\<close>

theorem buffer_start_monotone_cap_per_chunk:
  "buffer_start (hub_run evs hub_init) \<le> buffer_start (hub_run (evs @ evs2) hub_init)
   \<and> (total_written (gc_locked h) - buffer_start (gc_locked h) \<le> MAX_STREAM_BUFFER_BYTES
        \<or> (\<exists>c r. chunks (gc_locked h) = c # r
              \<and> total_written (gc_locked h) - chunk_end c < MAX_STREAM_BUFFER_BYTES))"
  using buffer_start_run_mono[OF wf_run[OF wf_init], of evs evs2] gc_bound[of h]
  by (simp add: hub_run_append)

theorem buffer_start_monotone_cap_per_chunk_witness:
  "buffer_start (hub_run [Register ''1'' 0, Append [1, 2, 3]] hub_init)
     \<le> buffer_start (hub_run ([Register ''1'' 0, Append [1, 2, 3]] @ [Read ''1'' 0]) hub_init)
   \<and> buffer_start (hub_run ([Register ''1'' 0, Append [1, 2, 3]] @ [Read ''1'' 0]) hub_init) = 3
   \<and> total_written (gc_locked (hub_run [Register ''1'' 0, Append [1, 2, 3]] hub_init))
       - buffer_start (gc_locked (hub_run [Register ''1'' 0, Append [1, 2, 3]] hub_init)) = 3"
proof -
  have a: "hub_run [Register ''1'' 0, Append [1, 2, 3]] hub_init =
    \<lparr>chunks = [(0, [1, 2, 3])], total_written = 3, finished = False, failure = None,
      consumers = [(''1'', 0)], lagged = {}\<rparr>"
    by (simp add: hub_run_def hub_init_def register_def append_chunk_def gc_locked_def
      drop_consumed_def over_cap_def min_offset_def buffer_start_def
      chunk_end_def MAX_STREAM_BUFFER_BYTES_def Let_def)
  have b: "hub_run ([Register ''1'' 0, Append [1, 2, 3]] @ [Read ''1'' 0]) hub_init =
    \<lparr>chunks = [], total_written = 3, finished = False, failure = None,
      consumers = [(''1'', 3)], lagged = {}\<rparr>"
    unfolding hub_run_append a
    by (simp add: hub_run_def iter_step_def gc_locked_def
      drop_consumed_def over_cap_def min_offset_def buffer_start_def
      chunk_end_def MAX_STREAM_BUFFER_BYTES_def Let_def)
  have c: "gc_locked \<lparr>chunks = [(0, [1, 2, 3])], total_written = 3, finished = False,
      failure = None, consumers = [(''1'', 0)], lagged = {}\<rparr> =
    \<lparr>chunks = [(0, [1, 2, 3 :: 8 word])], total_written = 3, finished = False, failure = None,
      consumers = [(''1'', 0)], lagged = {}\<rparr>"
    by (simp add: gc_locked_def
      drop_consumed_def over_cap_def min_offset_def buffer_start_def
      chunk_end_def MAX_STREAM_BUFFER_BYTES_def Let_def)
  from buffer_start_monotone_cap_per_chunk[of "[Register ''1'' 0, Append [1, 2, 3]]" "[Read ''1'' 0]"
      "hub_run [Register ''1'' 0, Append [1, 2, 3]] hub_init"]
  show ?thesis unfolding b unfolding a c by (simp add: buffer_start_def)
qed

text \<open>
  Claim C3 as stated fails: with a consumer registered at offset 0 that has not read yet,
  the append of the 24th chunk of one mebibyte ends with an eviction pass that removes
  nothing, since the first chunk ends above \<open>keep_from = 165824\<close>; the pass returns with
  25,165,824 bytes buffered.
\<close>

theorem cap_exceeded_after_eviction:
  "total_written (hub_run (Register ''1'' 0 # replicate 24 (Append mebibyte_chunk)) hub_init)
     - buffer_start (hub_run (Register ''1'' 0 # replicate 24 (Append mebibyte_chunk)) hub_init)
     = 25165824
   \<and> gc_locked (hub_run (Register ''1'' 0 # replicate 24 (Append mebibyte_chunk)) hub_init)
     = hub_run (Register ''1'' 0 # replicate 24 (Append mebibyte_chunk)) hub_init
   \<and> MAX_STREAM_BUFFER_BYTES < 25165824"
  unfolding cap_trace_state
  by (simp add: buffer_start_def gc_locked_def drop_consumed_def drop_forced_def over_cap_def
      keep_from_def min_offset_def chunk_end_def mebibyte_length MAX_STREAM_BUFFER_BYTES_def
      Let_def upto.simps)

lemma take_prefix: "cs = xs @ ys \<Longrightarrow> take (length cs - length ys) cs = xs"
  by simp

lemma evicted_split:
  "evicted h =
     (if over_cap (drop_consumed h)
      then takeWhile (\<lambda>c. chunk_end c \<le> min_offset h) (chunks h) @
           takeWhile (\<lambda>c. chunk_end c \<le> keep_from h)
             (dropWhile (\<lambda>c. chunk_end c \<le> min_offset h) (chunks h))
      else takeWhile (\<lambda>c. chunk_end c \<le> min_offset h) (chunks h))"
proof -
  let ?P = "\<lambda>c. chunk_end c \<le> min_offset h"
  let ?Q = "\<lambda>c. chunk_end c \<le> keep_from h"
  have 1: "chunks h = takeWhile ?P (chunks h) @ dropWhile ?P (chunks h)" by simp
  have 2: "chunks h = (takeWhile ?P (chunks h) @ takeWhile ?Q (dropWhile ?P (chunks h)))
      @ dropWhile ?Q (dropWhile ?P (chunks h))" by simp
  show ?thesis
    unfolding evicted_def gc_chunks
    using take_prefix[OF 1] take_prefix[OF 2] by (simp del: takeWhile_dropWhile_id)
qed

lemma evicted_prefix: "chunks h = evicted h @ chunks (gc_locked h)"
  by (simp add: evicted_split gc_chunks)

lemma evicted_unforced:
  "\<not> over_cap (drop_consumed h) \<Longrightarrow> c \<in> set (evicted h) \<Longrightarrow> chunk_end c \<le> min_offset h"
  by (auto simp: evicted_split dest: set_takeWhileD)

lemma buffer_start_drop_consumed:
  "buffer_start (drop_consumed h) =
     (case dropWhile (\<lambda>c. chunk_end c \<le> min_offset h) (chunks h) of
        [] \<Rightarrow> total_written h | c # r \<Rightarrow> fst c)"
  unfolding drop_consumed_def by (rule buffer_start_chunks)

lemma evicted_forced:
  assumes "hub_wf h" "over_cap (drop_consumed h)" "c \<in> set (evicted h)"
  shows "chunk_end c \<le> keep_from h"
proof -
  let ?P = "\<lambda>c. chunk_end c \<le> min_offset h"
  let ?Q = "\<lambda>c. chunk_end c \<le> keep_from h"
  from assms(2) have lt: "buffer_start (drop_consumed h) < keep_from h"
    by (simp add: over_cap_def keep_from_def drop_consumed_fields)
  from assms(3) assms(2) consider "c \<in> set (takeWhile ?P (chunks h))"
    | "c \<in> set (takeWhile ?Q (dropWhile ?P (chunks h)))"
    by (auto simp: evicted_split)
  then show ?thesis
  proof cases
    case 1
    from assms(1) have "chained (buffer_start h) (chunks h) (total_written h)"
      by (simp add: hub_wf_def)
    from chained_dropped_below[OF this 1] have "chunk_end c \<le> buffer_start (drop_consumed h)"
      by (simp add: buffer_start_drop_consumed)
    with lt show ?thesis by simp
  next
    case 2
    then show ?thesis by (auto dest: set_takeWhileD)
  qed
qed

lemma min_offset_le: "(cid, off) \<in> set (consumers h) \<Longrightarrow> min_offset h \<le> off"
proof -
  assume a: "(cid, off) \<in> set (consumers h)"
  then have "consumers h \<noteq> []" by auto
  moreover from a have "off \<in> set (map snd (consumers h))" by force
  ultimately show ?thesis by (simp add: min_offset_def list_min_le)
qed

lemma chained_start_after_drop:
  "chained s cs e \<Longrightarrow>
   (case dropWhile P cs of [] \<Rightarrow> e | c # r \<Rightarrow> fst c) = s
   \<or> (\<exists>c \<in> set cs. P c \<and> (case dropWhile P cs of [] \<Rightarrow> e | c # r \<Rightarrow> fst c) = chunk_end c)"
proof (induction cs arbitrary: s)
  case Nil then show ?case by simp
next
  case (Cons x cs)
  from Cons.prems have x: "fst x = s" "chained (chunk_end x) cs e" by simp_all
  show ?case
  proof (cases "P x")
    case False
    with x show ?thesis by simp
  next
    case True
    from Cons.IH[OF x(2)] True show ?thesis by auto
  qed
qed

lemma drop_consumed_start:
  assumes "hub_wf h" "(cid, off) \<in> set (consumers h)" "buffer_start h \<le> off"
  shows "buffer_start (drop_consumed h) \<le> off"
proof -
  from assms(1) have ch: "chained (buffer_start h) (chunks h) (total_written h)"
    by (simp add: hub_wf_def)
  from chained_start_after_drop[OF ch, of "\<lambda>c. chunk_end c \<le> min_offset h"]
  have "buffer_start (drop_consumed h) = buffer_start h \<or> buffer_start (drop_consumed h) \<le> min_offset h"
    by (auto simp: buffer_start_drop_consumed)
  with assms(3) min_offset_le[OF assms(2)] show ?thesis by auto
qed

lemma drop_forced_lagged:
  assumes "(cid, off) \<in> set (consumers h)" "off < buffer_start (drop_forced h)"
    "buffer_start h < buffer_start (drop_forced h)"
  shows "cid \<in> lagged (drop_forced h)"
proof -
  let ?h2 = "h\<lparr>chunks := dropWhile (\<lambda>c. chunk_end c \<le> keep_from h) (chunks h)\<rparr>"
  have b: "buffer_start (drop_forced h) = buffer_start ?h2"
    by (simp add: drop_forced_def Let_def buffer_start_lagged)
  with assms(3) have m: "\<not> buffer_start ?h2 \<le> buffer_start h" by simp
  from assms(1,2) b have "cid \<in> fst ` set (filter (\<lambda>(cid, off). off < buffer_start ?h2) (consumers ?h2))"
    by force
  with m show ?thesis by (simp add: drop_forced_def Let_def)
qed

lemma gc_lags_overtaken:
  assumes "hub_wf h" "(cid, off) \<in> set (consumers h)" "buffer_start h \<le> off"
    "off < buffer_start (gc_locked h)"
  shows "cid \<in> lagged (gc_locked h)"
proof -
  from drop_consumed_start[OF assms(1-3)] have s: "buffer_start (drop_consumed h) \<le> off" .
  with assms(4) have ne: "gc_locked h \<noteq> drop_consumed h" by auto
  then have g: "gc_locked h = drop_forced (drop_consumed h)" by (auto simp: gc_locked_def Let_def)
  have c: "(cid, off) \<in> set (consumers (drop_consumed h))"
    using assms(2) by (simp add: drop_consumed_fields)
  from s assms(4) have "buffer_start (drop_consumed h) < buffer_start (drop_forced (drop_consumed h))"
    by (simp add: g)
  from drop_forced_lagged[OF c _ this] assms(4) show ?thesis by (simp add: g)
qed

lemma gc_lags_forced:
  assumes "over_cap (drop_consumed h)" "buffer_start (drop_consumed h) < buffer_start (gc_locked h)"
    "(cid, off) \<in> set (consumers h)" "off < buffer_start (gc_locked h)"
  shows "cid \<in> lagged (gc_locked h)"
proof -
  from assms(1) have g: "gc_locked h = drop_forced (drop_consumed h)" by (simp add: gc_locked_def)
  have c: "(cid, off) \<in> set (consumers (drop_consumed h))"
    using assms(3) by (simp add: drop_consumed_fields)
  from drop_forced_lagged[OF c] assms(2,4) show ?thesis by (simp add: g)
qed

text \<open>
  Claim C4. For a buffer as the hub builds it, the chunks an eviction pass removes are
  leading chunks of the deque. Unless the bytes retained after the first loop exceed the
  cap, every removed chunk ends at or below the least consumer cursor. In the forced case
  every removed chunk ends at or below \<open>keep_from = total_written - 25,000,000\<close>. Every
  consumer whose cursor was at or above the buffer start before the pass and is below it
  after the pass is in the lagged set, and when the forced loop moved the buffer start,
  so is every consumer whose cursor is below the new buffer start.
\<close>

theorem eviction_spares_consumers:
  assumes "hub_wf h"
  shows "chunks h = evicted h @ chunks (gc_locked h)
   \<and> (\<not> over_cap (drop_consumed h) \<longrightarrow> (\<forall>c \<in> set (evicted h). chunk_end c \<le> min_offset h))
   \<and> (over_cap (drop_consumed h) \<longrightarrow>
        (\<forall>c \<in> set (evicted h). chunk_end c \<le> total_written h - MAX_STREAM_BUFFER_BYTES))
   \<and> (\<forall>(cid, off) \<in> set (consumers h).
        buffer_start h \<le> off \<and> off < buffer_start (gc_locked h) \<longrightarrow> cid \<in> lagged (gc_locked h))
   \<and> (over_cap (drop_consumed h) \<and> buffer_start (drop_consumed h) < buffer_start (gc_locked h) \<longrightarrow>
        (\<forall>(cid, off) \<in> set (consumers h).
           off < buffer_start (gc_locked h) \<longrightarrow> cid \<in> lagged (gc_locked h)))"
proof -
  have a: "chunks h = evicted h @ chunks (gc_locked h)" by (rule evicted_prefix)
  have b: "\<not> over_cap (drop_consumed h) \<longrightarrow> (\<forall>c \<in> set (evicted h). chunk_end c \<le> min_offset h)"
    using evicted_unforced by blast
  have c: "over_cap (drop_consumed h) \<longrightarrow>
        (\<forall>c \<in> set (evicted h). chunk_end c \<le> total_written h - MAX_STREAM_BUFFER_BYTES)"
    using evicted_forced[OF assms] by (auto simp: keep_from_def)
  have d: "\<forall>(cid, off) \<in> set (consumers h).
        buffer_start h \<le> off \<and> off < buffer_start (gc_locked h) \<longrightarrow> cid \<in> lagged (gc_locked h)"
    using gc_lags_overtaken[OF assms] by blast
  have e: "over_cap (drop_consumed h) \<and> buffer_start (drop_consumed h) < buffer_start (gc_locked h) \<longrightarrow>
        (\<forall>(cid, off) \<in> set (consumers h).
           off < buffer_start (gc_locked h) \<longrightarrow> cid \<in> lagged (gc_locked h))"
    using gc_lags_forced[of h] by blast
  from a b c d e show ?thesis by blast
qed

theorem eviction_spares_consumers_witness:
  "hub_wf \<lparr>chunks = map (\<lambda>i. (i * 1048576, mebibyte_chunk)) [0..24],
      total_written = 26214400, finished = False, failure = None,
      consumers = [(''1'', 0)], lagged = {}\<rparr>
   \<and> over_cap (drop_consumed \<lparr>chunks = map (\<lambda>i. (i * 1048576, mebibyte_chunk)) [0..24],
      total_written = 26214400, finished = False, failure = None,
      consumers = [(''1'', 0)], lagged = {}\<rparr>)
   \<and> evicted \<lparr>chunks = map (\<lambda>i. (i * 1048576, mebibyte_chunk)) [0..24],
      total_written = 26214400, finished = False, failure = None,
      consumers = [(''1'', 0)], lagged = {}\<rparr> = [(0, mebibyte_chunk)]
   \<and> chunk_end (0, mebibyte_chunk) \<le> 26214400 - MAX_STREAM_BUFFER_BYTES
   \<and> ''1'' \<in> lagged (gc_locked \<lparr>chunks = map (\<lambda>i. (i * 1048576, mebibyte_chunk)) [0..24],
      total_written = 26214400, finished = False, failure = None,
      consumers = [(''1'', 0)], lagged = {}\<rparr>)"
proof -
  let ?h = "\<lparr>chunks = map (\<lambda>i. (i * 1048576, mebibyte_chunk)) [0..24],
      total_written = 26214400, finished = False, failure = None,
      consumers = [(''1'', 0)], lagged = {}\<rparr>"
  have w: "hub_wf ?h"
    by (simp add: hub_wf_def buffer_start_def chunk_end_def mebibyte_length mebibyte_nonempty
        upto.simps)
  have o: "over_cap (drop_consumed ?h)"
    apply (simp add: drop_consumed_def min_offset_def chunk_end_def mebibyte_length upto.simps)
    apply (simp add: over_cap_def)
    apply (simp add: buffer_start_def MAX_STREAM_BUFFER_BYTES_def)
    done
  have b0: "buffer_start ?h = 0" by (simp add: buffer_start_def upto.simps)
  have g: "chunks (gc_locked ?h) = map (\<lambda>i. (i * 1048576, mebibyte_chunk)) [1..24]"
    unfolding gc_chunks using o
    by (simp add: min_offset_def keep_from_def chunk_end_def mebibyte_length
        MAX_STREAM_BUFFER_BYTES_def upto.simps)
  have b1: "buffer_start (gc_locked ?h) = 1048576"
    unfolding buffer_start_def g by (simp add: upto.simps)
  have e: "evicted ?h = [(0, mebibyte_chunk)]"
    unfolding evicted_def g by (simp add: upto.simps)
  have c: "(''1'', 0) \<in> set (consumers ?h)" by simp
  from eviction_spares_consumers[OF w] have
    e1: "\<forall>c \<in> set (evicted ?h). chunk_end c \<le> total_written ?h - MAX_STREAM_BUFFER_BYTES"
    and e2: "\<forall>(cid, off) \<in> set (consumers ?h).
        buffer_start ?h \<le> off \<and> off < buffer_start (gc_locked ?h) \<longrightarrow> cid \<in> lagged (gc_locked ?h)"
    using o by blast+
  from e1 have f1: "chunk_end (0, mebibyte_chunk) \<le> 26214400 - MAX_STREAM_BUFFER_BYTES"
    unfolding e by simp
  from e2 c have f2: "''1'' \<in> lagged (gc_locked ?h)"
    unfolding b0 b1 by auto
  from w o e f1 f2 show ?thesis by blast
qed

subsection \<open>A hub without consumers\<close>

lemma no_consumers_gc:
  assumes "hub_wf h" "consumers h = []"
  shows "chunks (gc_locked h) = []"
proof -
  from assms(1) have ch: "chained (buffer_start h) (chunks h) (total_written h)"
    by (simp add: hub_wf_def)
  have m: "min_offset h = total_written h" using assms(2) by (simp add: min_offset_def)
  have "\<forall>c \<in> set (chunks h). chunk_end c \<le> total_written h"
    using chained_member[OF ch] by blast
  then have d: "chunks (drop_consumed h) = []" by (simp add: drop_consumed_chunks m)
  then have "buffer_start (drop_consumed h) = total_written h"
    by (simp add: buffer_start_def drop_consumed_fields)
  then have "\<not> over_cap (drop_consumed h)"
    by (simp add: over_cap_def drop_consumed_fields MAX_STREAM_BUFFER_BYTES_def)
  with d show ?thesis by (simp add: gc_locked_def)
qed

lemma update_nonempty: "AList.update k v al \<noteq> []"
  by (cases al) auto

lemma no_consumers_step:
  assumes "hub_wf h" "consumers h = [] \<longrightarrow> chunks h = []" "consumers (hub_step ev h) = []"
  shows "chunks (hub_step ev h) = []"
proof (cases ev)
  case (Append d)
  show ?thesis
  proof (cases "d = []")
    case True with assms Append show ?thesis by (simp add: append_chunk_def)
  next
    case False
    let ?h = "h\<lparr>total_written := total_written h + int (length d),
              chunks := chunks h @ [(total_written h, d)]\<rparr>"
    have s: "hub_step ev h = gc_locked ?h" using False by (simp add: Append append_chunk_def)
    have "hub_wf (hub_step ev h)" using wf_step[OF assms(1)] by simp
    from assms(3) have c: "consumers ?h = []" by (simp add: s gc_fields)
    have b: "buffer_start ?h = buffer_start h"
      by (cases "chunks h") (simp_all add: buffer_start_def)
    have "chained (buffer_start h) (chunks h @ [(total_written h, d)])
          (total_written h + int (length d))"
      using assms(1) False by (intro chained_snoc) (simp_all add: hub_wf_def)
    then have "hub_wf ?h" using assms(1) b by (simp add: hub_wf_def)
    from no_consumers_gc[OF this c] show ?thesis by (simp add: s)
  qed
next
  case (Fail e) with assms show ?thesis by simp
next
  case Exit with assms show ?thesis by simp
next
  case (Register c s)
  with assms(3) update_nonempty show ?thesis by (simp add: register_def)
next
  case (Read c s)
  show ?thesis
  proof (cases "iter_step c s h")
    case (Yielded out h')
    from iter_step_yield[OF this] obtain v where
      "h' = gc_locked (h\<lparr>consumers := AList.update c v (consumers h)\<rparr>)" by blast
    with assms(3) update_nonempty show ?thesis by (simp add: Read Yielded gc_fields)
  qed (use assms Read in simp_all)
next
  case (Leave c)
  let ?h = "h\<lparr>consumers := AList.delete c (consumers h), lagged := lagged h - {c}\<rparr>"
  have w: "hub_wf ?h" using assms(1) same_buffer(2)[of ?h h] by simp
  from assms(3) have "consumers ?h = []" by (simp add: Leave unregister_def gc_fields)
  from no_consumers_gc[OF w this] show ?thesis by (simp add: Leave unregister_def)
qed

lemma no_consumers_run:
  "consumers (hub_run evs hub_init) = [] \<longrightarrow> chunks (hub_run evs hub_init) = []"
proof (induction evs rule: rev_induct)
  case Nil then show ?case by (simp add: hub_run_def hub_init_def)
next
  case (snoc ev evs)
  show ?case unfolding hub_run_snoc
    using no_consumers_step[OF wf_run[OF wf_init] snoc.IH] by blast
qed

lemma producer_run:
  "list_all producer_event evs \<Longrightarrow> consumers h = [] \<Longrightarrow> lagged h = {} \<Longrightarrow>
   consumers (hub_run evs h) = [] \<and> lagged (hub_run evs h) = {}
   \<and> total_written (hub_run evs h) = total_written h + int (length (emitted evs))"
  unfolding hub_run_def
proof (induction evs arbitrary: h)
  case Nil then show ?case by simp
next
  case (Cons ev evs)
  show ?case
  proof (cases ev)
    case (Append d)
    have c: "consumers (append_chunk d h) = []" using Cons.prems(2)
      by (simp add: append_chunk_def gc_fields)
    have "lagged (append_chunk d h) = {}" using Cons.prems(2,3)
      by (simp add: append_chunk_def gc_locked_def drop_consumed_def drop_forced_def Let_def)
    moreover have "total_written (append_chunk d h) = total_written h + int (length d)"
      by (simp add: append_chunk_def gc_fields)
    ultimately show ?thesis using Cons.IH[of "append_chunk d h"] Cons.prems(1) c
      by (simp add: Append)
  next
    case (Fail e)
    with Cons.IH[of "h\<lparr>failure := Some e\<rparr>"] Cons.prems show ?thesis by simp
  next
    case Exit
    with Cons.IH[of "h\<lparr>finished := True\<rparr>"] Cons.prems show ?thesis by simp
  qed (use Cons.prems in simp_all)
qed

lemma late_consumer_behind:
  assumes "list_all producer_event evs" "0 \<le> s" "s < int (length (emitted evs))"
  shows "iter_step cid s (hub_run (evs @ [Register cid s]) hub_init) =
     (case failure (hub_run evs hub_init) of None \<Rightarrow> Behind | Some e \<Rightarrow> Failed e)"
proof -
  let ?h = "hub_run evs hub_init"
  from producer_run[OF assms(1), of hub_init]
  have c: "consumers ?h = []" and l: "lagged ?h = {}" and t: "total_written ?h = int (length (emitted evs))"
    by (simp_all add: hub_init_def)
  from no_consumers_run[of evs] c have k: "chunks ?h = []" by simp
  let ?r = "register cid s ?h"
  have b: "buffer_start ?r = total_written ?h"
    using k by (simp add: register_def buffer_start_def)
  have r1: "lagged ?r = {}" using l by (simp add: register_def)
  have r2: "failure ?r = failure ?h" by (simp add: register_def)
  have r3: "map_of (consumers ?r) cid = Some s"
    using assms(2) by (simp add: register_def update_conv')
  have r4: "total_written ?r = total_written ?h" by (simp add: register_def)
  have ne: "emitted evs \<noteq> []" using assms(2,3) by auto
  have "iter_step cid s ?r = (case failure ?h of None \<Rightarrow> Behind | Some e \<Rightarrow> Failed e)"
    unfolding iter_step_def r1 r2 r3 r4 b Let_def
    using assms(2,3) t ne by (simp split: option.splits)
  then show ?thesis by (simp add: hub_run_snoc)
qed

text \<open>
  Claim C9. An eviction pass on a hub with no registered consumer removes every buffered
  chunk, since the watermark is then \<open>_total_written\<close> and no chunk ends above it. So in
  every state the hub can reach, the buffer is empty whenever no consumer is registered,
  in particular after every chunk append. After a warm start, in which only the producer
  has acted, the buffer is empty, and a consumer that attaches then at an offset below
  \<open>_total_written\<close> is told at its first pass that it is behind (or gets the producer's
  error).
\<close>

theorem no_consumer_no_buffer:
  "(hub_wf h \<and> consumers h = [] \<longrightarrow> chunks (gc_locked h) = [])
   \<and> (consumers (hub_run evs hub_init) = [] \<longrightarrow>
        chunks (hub_run (evs @ [Append data]) hub_init) = [])
   \<and> (list_all producer_event evs \<longrightarrow>
        chunks (hub_run evs hub_init) = []
        \<and> (0 \<le> s \<and> s < int (length (emitted evs)) \<longrightarrow>
             iter_step cid s (hub_run (evs @ [Register cid s]) hub_init) =
               (case failure (hub_run evs hub_init) of None \<Rightarrow> Behind | Some e \<Rightarrow> Failed e)))"
proof -
  have a: "hub_wf h \<and> consumers h = [] \<longrightarrow> chunks (gc_locked h) = []"
    using no_consumers_gc by blast
  have b: "consumers (hub_run evs hub_init) = [] \<longrightarrow>
        chunks (hub_run (evs @ [Append data]) hub_init) = []"
  proof
    assume "consumers (hub_run evs hub_init) = []"
    then have "consumers (hub_run (evs @ [Append data]) hub_init) = []"
      by (simp add: hub_run_snoc append_chunk_def gc_fields)
    with no_consumers_run[of "evs @ [Append data]"] show "chunks (hub_run (evs @ [Append data]) hub_init) = []"
      by blast
  qed
  have c: "list_all producer_event evs \<longrightarrow> chunks (hub_run evs hub_init) = []"
    using producer_run[of evs hub_init] no_consumers_run[of evs] by (simp add: hub_init_def)
  from a b c late_consumer_behind[of evs s cid] show ?thesis by blast
qed

theorem no_consumer_no_buffer_witness:
  "list_all producer_event [Append [1, 2, 3], Append [4, 5]]
   \<and> consumers (hub_run [Append [1, 2, 3]] hub_init) = []
   \<and> chunks (hub_run ([Append [1, 2, 3]] @ [Append [4, 5]]) hub_init) = []
   \<and> iter_step ''1'' 0 (hub_run ([Append [1, 2, 3], Append [4, 5]] @ [Register ''1'' 0]) hub_init)
       = Behind"
proof -
  have p: "list_all producer_event [Append [1, 2, 3], Append [4, 5]]" by simp
  have c: "consumers (hub_run [Append [1, 2, 3]] hub_init) = []"
    by (simp add: hub_run_def hub_init_def append_chunk_def gc_fields)
  have f: "failure (hub_run [Append [1, 2, 3], Append [4, 5]] hub_init) = None"
    by (simp add: hub_run_def hub_init_def append_chunk_def gc_fields)
  have e: "(0::int) \<le> 0 \<and> 0 < int (length (emitted [Append [1, 2, 3], Append [4, 5]]))" by simp
  from no_consumer_no_buffer[of "hub_run [Append [1, 2, 3]] hub_init" "[Append [1, 2, 3]]" "[4, 5]"]
    no_consumer_no_buffer[of hub_init "[Append [1, 2, 3], Append [4, 5]]" "[]" 0 "''1''"]
    p c f e
  show ?thesis by simp
qed

subsection \<open>The buffer holds the bytes of the stream\<close>

lemma holds_bytes_chunks:
  assumes "holds_bytes em h" "set (chunks h') \<subseteq> set (chunks h)" "total_written h' = total_written h"
  shows "holds_bytes em h'"
  using assms by (auto simp: holds_bytes_def list_all_iff)

lemma gc_chunks_subset: "set (chunks (gc_locked h)) \<subseteq> set (chunks h)"
  by (auto simp: gc_chunks dest: set_dropWhileD)

lemma holds_bytes_gc: "holds_bytes em h \<Longrightarrow> holds_bytes em (gc_locked h)"
  by (rule holds_bytes_chunks[OF _ gc_chunks_subset]) (simp_all add: gc_fields)

lemma chunk_within:
  assumes "d = take (length d) (drop a em)"
  shows "a + length d \<le> length em \<or> d = []"
proof -
  have "length d = length (take (length d) (drop a em))" using assms by simp
  then have le: "length d \<le> length em - a" by simp
  show ?thesis
  proof (cases "d = []")
    case True then show ?thesis by simp
  next
    case False
    then have "0 < length d" by simp
    with le show ?thesis by arith
  qed
qed

lemma piece_extends:
  assumes "d = take (length d) (drop a em)"
  shows "d = take (length d) (drop a (em @ more_bytes))"
proof (cases "d = []")
  case True then show ?thesis by simp
next
  case False
  with chunk_within[OF assms] have "a + length d \<le> length em" by simp
  then have "take (length d) (drop a (em @ more_bytes)) = take (length d) (drop a em)" by simp
  with assms show ?thesis by simp
qed

lemma holds_bytes_append:
  assumes "holds_bytes em h"
  shows "holds_bytes (em @ data) (append_chunk data h)"
proof (cases "data = []")
  case True with assms show ?thesis by (simp add: append_chunk_def)
next
  case False
  let ?h = "h\<lparr>total_written := total_written h + int (length data),
              chunks := chunks h @ [(total_written h, data)]\<rparr>"
  from assms have t: "total_written h = int (length em)" by (simp add: holds_bytes_def)
  have ext: "snd c = take (length (snd c)) (drop (nat (fst c)) (em @ data))"
    if "c \<in> set (chunks h)" for c
  proof -
    from that assms have "snd c = take (length (snd c)) (drop (nat (fst c)) em)"
      by (auto simp: holds_bytes_def list_all_iff)
    then show ?thesis by (rule piece_extends)
  qed
  have pos: "0 \<le> fst c" if "c \<in> set (chunks h)" for c
    using that assms by (auto simp: holds_bytes_def list_all_iff)
  have old: "list_all (\<lambda>c. 0 \<le> fst c \<and> snd c = take (length (snd c)) (drop (nat (fst c)) (em @ data))) (chunks h)"
    unfolding list_all_iff using ext pos by blast
  have "holds_bytes (em @ data) ?h"
    using old t by (simp add: holds_bytes_def)
  then show ?thesis using False by (simp add: append_chunk_def holds_bytes_gc)
qed

lemma holds_bytes_step:
  assumes "holds_bytes em h"
  shows "holds_bytes (em @ emitted [ev]) (hub_step ev h)"
proof (cases ev)
  case (Append d) with holds_bytes_append[OF assms] show ?thesis by simp
next
  case (Fail e) with assms show ?thesis by (simp add: holds_bytes_def)
next
  case Exit with assms show ?thesis by (simp add: holds_bytes_def)
next
  case (Register c s) with assms show ?thesis by (simp add: holds_bytes_def register_def)
next
  case (Read c s)
  show ?thesis
  proof (cases "iter_step c s h")
    case (Yielded out h')
    from iter_step_yield[OF this] obtain v where
      h': "h' = gc_locked (h\<lparr>consumers := AList.update c v (consumers h)\<rparr>)" by blast
    have "holds_bytes em (h\<lparr>consumers := AList.update c v (consumers h)\<rparr>)"
      using assms by (simp add: holds_bytes_def)
    then show ?thesis by (simp add: Read Yielded h' holds_bytes_gc)
  qed (use assms Read in simp_all)
next
  case (Leave c)
  have "holds_bytes em (h\<lparr>consumers := AList.delete c (consumers h), lagged := lagged h - {c}\<rparr>)"
    using assms by (simp add: holds_bytes_def)
  then show ?thesis by (simp add: Leave unregister_def holds_bytes_gc)
qed

lemma emitted_append: "emitted (xs @ ys) = emitted xs @ emitted ys"
  by (induction xs rule: emitted.induct) simp_all

lemma holds_bytes_run: "holds_bytes em h \<Longrightarrow> holds_bytes (em @ emitted evs) (hub_run evs h)"
  unfolding hub_run_def
proof (induction evs arbitrary: em h)
  case Nil then show ?case by simp
next
  case (Cons ev evs)
  from Cons.IH[OF holds_bytes_step[OF Cons.prems, of ev]]
  have "holds_bytes ((em @ emitted [ev]) @ emitted evs) (fold hub_step evs (hub_step ev h))" .
  moreover have "emitted (ev # evs) = emitted [ev] @ emitted evs"
    using emitted_append[of "[ev]" evs] by simp
  ultimately show ?case by simp
qed

lemma holds_bytes_init: "holds_bytes [] hub_init"
  by (simp add: holds_bytes_def hub_init_def)

subsection \<open>A pass of the consumer\<close>

lemma find_chunk_covers:
  "find_chunk off cs = Some c \<Longrightarrow> c \<in> set cs \<and> fst c \<le> off \<and> off < chunk_end c"
  by (induction cs) (auto split: if_splits)

lemma piece_of_stream:
  fixes a off :: nat
  assumes d: "d = take (length d) (drop a em)" and lo: "a \<le> off" and hi: "off < a + length d"
  shows "drop (off - a) d = take (a + length d - off) (drop off em)"
proof -
  have "drop (off - a) d = drop (off - a) (take (length d) (drop a em))" using d by simp
  also have "\<dots> = take (length d - (off - a)) (drop (off - a) (drop a em))"
    by (simp add: drop_take)
  also have "\<dots> = take (a + length d - off) (drop off em)" using lo hi by (simp add: add.commute)
  finally show ?thesis .
qed

lemma take_take_drop:
  fixes s off e :: nat
  assumes "s \<le> off" "off \<le> e" "off \<le> length em"
  shows "take (off - s) (drop s em) @ take (e - off) (drop off em) = take (e - s) (drop s em)"
proof -
  have "take (e - s) (drop s em) = take ((off - s) + (e - off)) (drop s em)" using assms by simp
  also have "\<dots> = take (off - s) (drop s em) @ take (e - off) (drop (off - s) (drop s em))"
    by (rule take_add)
  also have "drop (off - s) (drop s em) = drop off em" using assms by simp
  finally show ?thesis by simp
qed

lemma cursor_other:
  "\<not> mentions cid ev \<Longrightarrow> map_of (consumers (hub_step ev h)) cid = map_of (consumers h) cid"
proof (cases ev)
  case (Append d) then show ?thesis by (simp add: append_chunk_def gc_fields)
next
  case (Register c s)
  assume "\<not> mentions cid ev"
  with Register show ?thesis by (simp add: register_def update_conv')
next
  case (Read c s)
  assume n: "\<not> mentions cid ev"
  show ?thesis
  proof (cases "iter_step c s h")
    case (Yielded out h')
    from iter_step_yield[OF this] obtain v where
      "h' = gc_locked (h\<lparr>consumers := AList.update c v (consumers h)\<rparr>)" by blast
    with n Read Yielded show ?thesis by (simp add: gc_fields update_conv')
  qed (use Read in simp_all)
next
  case (Leave c)
  assume "\<not> mentions cid ev"
  with Leave show ?thesis by (simp add: unregister_def gc_fields delete_conv')
qed simp_all

lemma total_step: "total_written h \<le> total_written (hub_step ev h)"
proof (cases ev)
  case (Append d) then show ?thesis by (simp add: append_chunk_def gc_fields)
next
  case (Register c s) then show ?thesis by (simp add: register_def)
next
  case (Read c s)
  show ?thesis
  proof (cases "iter_step c s h")
    case (Yielded out h')
    from iter_step_yield[OF this] obtain v where
      "h' = gc_locked (h\<lparr>consumers := AList.update c v (consumers h)\<rparr>)" by blast
    with Read Yielded show ?thesis by (simp add: gc_fields)
  qed (use Read in simp_all)
next
  case (Leave c) then show ?thesis by (simp add: unregister_def gc_fields)
qed simp_all

lemma yielded_other: "\<not> mentions cid ev \<Longrightarrow> yielded cid [ev] h = []"
  by (cases ev) (auto split: iter_result.splits)

lemma yielded_Cons: "yielded cid (ev # evs) h = yielded cid [ev] h @ yielded cid evs (hub_step ev h)"
  by (cases ev) (auto split: iter_result.splits)

lemma received_stable:
  fixes s off :: int
  assumes "0 \<le> s" "s \<le> off" "off \<le> int (length em) \<or> off = s"
  shows "take (nat (off - s)) (drop (nat s) (em @ x)) = take (nat (off - s)) (drop (nat s) em)"
proof (cases "off = s")
  case True then show ?thesis by simp
next
  case False
  with assms have "nat (off - s) \<le> length em - nat s" by auto
  then show ?thesis by simp
qed

lemma cursor_read:
  assumes inv: "cursor_inv cid s em out h" and y: "iter_step cid s h = Yielded piece h'"
  shows "cursor_inv cid s em (out @ piece) h'"
proof -
  from inv obtain off where hb: "holds_bytes em h" and s0: "0 \<le> s"
    and m: "map_of (consumers h) cid = Some off" and so: "s \<le> off"
    and o: "out = take (nat (off - s)) (drop (nat s) em)"
    by (auto simp: cursor_inv_def)
  from iter_step_yield[OF y] m obtain c where f: "find_chunk off (chunks h) = Some c"
    and p: "piece = (if off - fst c > 0 then drop (nat (off - fst c)) (snd c) else snd c)"
    and h': "h' = gc_locked (h\<lparr>consumers := AList.update cid (off + int (length piece)) (consumers h)\<rparr>)"
    by auto
  from find_chunk_covers[OF f] have cin: "c \<in> set (chunks h)" and lo: "fst c \<le> off"
    and hi: "off < chunk_end c" by auto
  from hb cin have c0: "0 \<le> fst c"
    and cd: "snd c = take (length (snd c)) (drop (nat (fst c)) em)"
    by (auto simp: holds_bytes_def list_all_iff)
  from hb have t: "total_written h = int (length em)" by (simp add: holds_bytes_def)
  define a where "a = nat (fst c)"
  define L where "L = length (snd c)"
  define k where "k = nat off"
  define z where "z = nat s"
  have ak: "a \<le> k" using lo c0 by (simp add: a_def k_def)
  have kL: "k < a + L" using hi c0 lo by (simp add: a_def k_def L_def chunk_end_def)
  have zk: "z \<le> k" using so s0 by (simp add: z_def k_def)
  from kL ak have ne: "snd c \<noteq> []" by (auto simp: L_def)
  from chunk_within[OF cd[folded a_def]] ne have within: "a + L \<le> length em" by (simp add: L_def)
  have p': "piece = drop (k - a) (snd c)"
  proof (cases "off - fst c > 0")
    case True
    have "nat (off - fst c) = k - a" using c0 lo by (simp add: a_def k_def nat_diff_distrib)
    with True p show ?thesis by simp
  next
    case False
    with lo have "off = fst c" by simp
    then have "k - a = 0" by (simp add: a_def k_def)
    with False p show ?thesis by simp
  qed
  have piece: "piece = take (a + L - k) (drop k em)"
    unfolding p' L_def using piece_of_stream[OF cd[folded a_def] ak kL[unfolded L_def]] .
  have len: "length piece = a + L - k" using within by (simp add: piece)
  have new: "off + int (length piece) = int (a + L)"
    using ak kL so s0 by (simp add: len k_def)
  have o': "out = take (k - z) (drop z em)"
    using o so s0 by (simp add: k_def z_def nat_diff_distrib)
  have "out @ piece = take (a + L - z) (drop z em)"
    unfolding o' piece using take_take_drop[of z k "a + L" em] zk kL within by simp
  moreover have "nat (int (a + L) - s) = a + L - z" using s0 by (simp add: z_def nat_diff_distrib)
  ultimately have o2: "out @ piece = take (nat (int (a + L) - s)) (drop (nat s) em)"
    by (simp add: z_def)
  let ?h = "h\<lparr>consumers := AList.update cid (off + int (length piece)) (consumers h)\<rparr>"
  have hb': "holds_bytes em h'"
    unfolding h' by (rule holds_bytes_gc) (use hb in \<open>simp add: holds_bytes_def\<close>)
  have m': "map_of (consumers h') cid = Some (int (a + L))"
    by (simp add: h' gc_fields update_conv' new)
  have t': "total_written h' = int (length em)" by (simp add: h' gc_fields t)
  have "s \<le> int (a + L)" using zk kL s0 by (simp add: z_def)
  moreover have "int (a + L) \<le> total_written h'" using within by (simp add: t')
  ultimately show ?thesis using hb' s0 m' o2 by (auto simp: cursor_inv_def)
qed

lemma cursor_step:
  assumes inv: "cursor_inv cid s em out h" and ev: "mentions cid ev \<longrightarrow> ev = Read cid s"
  shows "cursor_inv cid s (em @ emitted [ev]) (out @ concat (yielded cid [ev] h)) (hub_step ev h)"
proof (cases "mentions cid ev")
  case False
  from inv obtain off where hb: "holds_bytes em h" and s0: "0 \<le> s"
    and m: "map_of (consumers h) cid = Some off" and so: "s \<le> off"
    and ot: "off \<le> total_written h \<or> off = s"
    and o: "out = take (nat (off - s)) (drop (nat s) em)"
    by (auto simp: cursor_inv_def)
  from hb have t: "total_written h = int (length em)" by (simp add: holds_bytes_def)
  have 1: "holds_bytes (em @ emitted [ev]) (hub_step ev h)" using hb by (rule holds_bytes_step)
  have 2: "map_of (consumers (hub_step ev h)) cid = Some off" using False m by (simp add: cursor_other)
  have 3: "off \<le> total_written (hub_step ev h) \<or> off = s" using ot total_step[of h ev] by auto
  have 4: "out = take (nat (off - s)) (drop (nat s) (em @ emitted [ev]))"
    using received_stable[OF s0 so, of em "emitted [ev]"] ot t o by simp
  from 1 2 3 4 s0 so False show ?thesis by (auto simp: cursor_inv_def yielded_other)
next
  case True
  with ev have r: "ev = Read cid s" by simp
  show ?thesis
  proof (cases "iter_step cid s h")
    case (Yielded piece h')
    from cursor_read[OF inv Yielded] Yielded show ?thesis
      by (cases "piece = []") (simp_all add: r)
  qed (use inv r in simp_all)
qed

lemma cursor_run:
  assumes "cursor_inv cid s em out h" "only_reads cid s evs"
  shows "cursor_inv cid s (em @ emitted evs) (out @ concat (yielded cid evs h)) (hub_run evs h)"
  using assms
proof (induction evs arbitrary: em out h)
  case Nil then show ?case by (simp add: hub_run_def)
next
  case (Cons ev evs)
  from Cons.prems(2) have e: "mentions cid ev \<longrightarrow> ev = Read cid s" and r: "only_reads cid s evs"
    by (simp_all add: only_reads_def)
  from Cons.IH[OF cursor_step[OF Cons.prems(1) e] r]
  have "cursor_inv cid s ((em @ emitted [ev]) @ emitted evs)
          ((out @ concat (yielded cid [ev] h)) @ concat (yielded cid evs (hub_step ev h)))
          (hub_run evs (hub_step ev h))" .
  moreover have "emitted (ev # evs) = emitted [ev] @ emitted evs"
    using emitted_append[of "[ev]" evs] by simp
  moreover have "hub_run (ev # evs) h = hub_run evs (hub_step ev h)" by (simp add: hub_run_def)
  ultimately show ?case by (simp add: yielded_Cons[of cid ev evs h])
qed

lemma cursor_registered:
  assumes "holds_bytes em h"
  shows "cursor_inv cid (max 0 start) em [] (register cid start h)"
  using assms by (simp add: cursor_inv_def holds_bytes_def register_def update_conv')

lemma cursor_returned:
  assumes inv: "cursor_inv cid s em out h" and r: "iter_step cid s h = Returned"
  shows "out = drop (nat s) em \<and> finished h \<and> total_written h = int (length em)"
proof -
  from inv obtain off where hb: "holds_bytes em h" and s0: "0 \<le> s"
    and m: "map_of (consumers h) cid = Some off" and so: "s \<le> off"
    and ot: "off \<le> total_written h \<or> off = s"
    and o: "out = take (nat (off - s)) (drop (nat s) em)"
    by (auto simp: cursor_inv_def)
  from hb have t: "total_written h = int (length em)" by (simp add: holds_bytes_def)
  from r m have f: "finished h" and ge: "total_written h \<le> off"
    by (auto simp: iter_step_def Let_def split: if_splits option.splits)
  have "out = drop (nat s) em"
  proof (cases "off = s")
    case True
    with ge t have "length em \<le> nat s" by simp
    with o True show ?thesis by simp
  next
    case False
    with ot ge t have "off = int (length em)" by simp
    then have "length (drop (nat s) em) \<le> nat (off - s)" using s0 by simp
    with o show ?thesis by simp
  qed
  with f t show ?thesis by simp
qed

text \<open>
  A consumer whose id no other consumer uses while it is attached gets the stream. Take
  any run of the hub: whatever happened before, the consumer registers with
  \<open>iter_bytes(start)\<close>, the producer and other consumers act in any order between its
  passes, and at last a pass of the consumer returns normally. Then the slices it was
  given, concatenated, are exactly the bytes the producer appended from offset
  \<open>max(0, start)\<close> up to the end of the stream, the producer is done, and the end of
  the stream is \<open>_total_written\<close>.
\<close>

theorem consumer_receives_suffix:
  assumes "only_reads cid (max 0 start) mid"
    and "iter_step cid (max 0 start) (hub_run (pre @ Register cid start # mid) hub_init) = Returned"
  shows "concat (yielded cid mid (hub_run (pre @ [Register cid start]) hub_init))
           = drop (nat (max 0 start)) (emitted (pre @ Register cid start # mid))
    \<and> finished (hub_run (pre @ Register cid start # mid) hub_init)
    \<and> total_written (hub_run (pre @ Register cid start # mid) hub_init)
         = int (length (emitted (pre @ Register cid start # mid)))"
proof -
  let ?h0 = "hub_run pre hub_init"
  let ?h1 = "register cid start ?h0"
  have hb: "holds_bytes (emitted pre) ?h0" using holds_bytes_run[OF holds_bytes_init, of pre] by simp
  have h1: "hub_run (pre @ [Register cid start]) hub_init = ?h1" by (simp add: hub_run_def)
  have hf: "hub_run (pre @ Register cid start # mid) hub_init = hub_run mid ?h1"
    by (simp add: hub_run_def)
  have em: "emitted (pre @ Register cid start # mid) = emitted pre @ emitted mid"
    by (simp add: emitted_append)
  from cursor_run[OF cursor_registered[OF hb] assms(1)]
  have "cursor_inv cid (max 0 start) (emitted pre @ emitted mid)
          (concat (yielded cid mid ?h1)) (hub_run mid ?h1)" by simp
  from cursor_returned[OF this] assms(2) show ?thesis by (simp add: hf h1 em)
qed

theorem consumer_receives_suffix_witness:
  "only_reads ''7'' (max 0 4) [Append [4, 5], Read ''7'' 4, Register ''8'' 0, Append [6], Read ''7'' 4, Exit]
   \<and> iter_step ''7'' (max 0 4)
        (hub_run ([Append [1, 2, 3]] @ Register ''7'' 4 #
           [Append [4, 5], Read ''7'' 4, Register ''8'' 0, Append [6], Read ''7'' 4, Exit]) hub_init)
       = Returned
   \<and> concat (yielded ''7'' [Append [4, 5], Read ''7'' 4, Register ''8'' 0, Append [6], Read ''7'' 4, Exit]
        (hub_run ([Append [1, 2, 3]] @ [Register ''7'' 4]) hub_init)) = [5, 6]"
proof -
  have o: "only_reads ''7'' (max 0 4)
      [Append [4, 5], Read ''7'' 4, Register ''8'' 0, Append [6], Read ''7'' 4, Exit]"
    by (simp add: only_reads_def)
  have r: "iter_step ''7'' (max 0 4)
        (hub_run ([Append [1, 2, 3]] @ Register ''7'' 4 #
           [Append [4, 5], Read ''7'' 4, Register ''8'' 0, Append [6], Read ''7'' 4, Exit]) hub_init)
       = Returned"
    by (simp add: hub_run_def hub_init_def register_def append_chunk_def gc_locked_def
        drop_consumed_def drop_forced_def over_cap_def min_offset_def buffer_start_def
        chunk_end_def iter_step_def MAX_STREAM_BUFFER_BYTES_def Let_def)
  from consumer_receives_suffix[OF o r] o r show ?thesis by simp
qed

text \<open>
  Claim C1. The bytes a consumer yields up to its normal return should be exactly the
  bytes appended from its start offset on. The code breaks this when two consumers get
  the same id, which \<open>str(time.time_ns())\<close> gives them when both read the clock within
  one tick: the second registration overwrites the cursor of the first. Here a consumer
  registers at offset 0 under the id \<open>7\<close>, a second one registers at offset 3 under the
  same id, and the producer appends \<open>[1,2,3]\<close> and \<open>[4,5]\<close> and ends. The passes of
  the first consumer yield \<open>[4,5]\<close> only and then return normally, without a behind
  signal and without an error, although the bytes appended from offset 0 are
  \<open>[1,2,3,4,5]\<close>.
\<close>

theorem shared_consumer_id_loses_bytes:
  "iter_step ''7'' 0
      (hub_run [Register ''7'' 0, Register ''7'' 3, Append [1, 2, 3], Read ''7'' 0,
                Append [4, 5], Read ''7'' 0, Exit] hub_init) = Returned
   \<and> yielded ''7''
        [Register ''7'' 3, Append [1, 2, 3], Read ''7'' 0, Append [4, 5], Read ''7'' 0, Exit]
        (hub_run [Register ''7'' 0] hub_init) = [[4, 5]]
   \<and> drop (nat 0)
        (emitted [Register ''7'' 0, Register ''7'' 3, Append [1, 2, 3], Read ''7'' 0,
                  Append [4, 5], Read ''7'' 0, Exit]) = [1, 2, 3, 4, 5]
   \<and> lagged (hub_run [Register ''7'' 0, Register ''7'' 3, Append [1, 2, 3], Read ''7'' 0,
                Append [4, 5], Read ''7'' 0, Exit] hub_init) = {}
   \<and> failure (hub_run [Register ''7'' 0, Register ''7'' 3, Append [1, 2, 3], Read ''7'' 0,
                Append [4, 5], Read ''7'' 0, Exit] hub_init) = None"
  by (simp add: hub_run_def hub_init_def register_def append_chunk_def gc_locked_def
      drop_consumed_def drop_forced_def over_cap_def min_offset_def buffer_start_def
      chunk_end_def iter_step_def MAX_STREAM_BUFFER_BYTES_def Let_def)

section \<open>One producer per resource identity\<close>

lemma ok_init: "registry_ok registry_init"
  by (simp add: registry_ok_def registry_init_def)

lemma hub_start_running:
  "producer s hid = Some t \<Longrightarrow> \<not> task_done s t \<Longrightarrow> hub_start hid s = s"
  by (simp add: hub_start_def)

lemma hub_start_spawn:
  assumes "case producer s hid of None \<Rightarrow> True | Some t \<Rightarrow> task_done s t"
  shows "hub_start hid s =
     s\<lparr>producer := (producer s)(hid := Some (n_tasks s)),
       task_hub := (task_hub s)(n_tasks s := hid),
       task_done := (task_done s)(n_tasks s := False),
       n_tasks := Suc (n_tasks s)\<rparr>"
  using assms by (simp add: hub_start_def)

lemma hub_start_cases:
  obtains (running) t where "producer s hid = Some t" "\<not> task_done s t" "hub_start hid s = s"
  | (spawn) "case producer s hid of None \<Rightarrow> True | Some t \<Rightarrow> task_done s t"
      "hub_start hid s =
         s\<lparr>producer := (producer s)(hid := Some (n_tasks s)),
           task_hub := (task_hub s)(n_tasks s := hid),
           task_done := (task_done s)(n_tasks s := False),
           n_tasks := Suc (n_tasks s)\<rparr>"
proof (cases "case producer s hid of None \<Rightarrow> True | Some t \<Rightarrow> task_done s t")
  case True
  from spawn[OF True hub_start_spawn[OF True]] show ?thesis .
next
  case False
  then obtain t where "producer s hid = Some t" "\<not> task_done s t"
    by (auto split: option.splits)
  from running[OF this hub_start_running[OF this]] show ?thesis .
qed

lemma ok_start:
  assumes ok: "registry_ok s" and h: "hid < n_hubs s"
  shows "registry_ok (hub_start hid s)"
proof (cases rule: hub_start_cases[of s hid])
  case (running t)
  with ok show ?thesis by simp
next
  case spawn
  have dead: "\<forall>t < n_tasks s. task_hub s t = hid \<longrightarrow> task_done s t"
  proof (intro allI impI)
    fix t assume t: "t < n_tasks s" "task_hub s t = hid"
    show "task_done s t"
    proof (rule ccontr)
      assume n: "\<not> task_done s t"
      with ok t have "producer s hid = Some t" by (auto simp: registry_ok_def)
      with spawn(1) n show False by simp
    qed
  qed
  have a: "\<forall>h t. producer s h = Some t \<longrightarrow> t < n_tasks s \<and> task_hub s t = h"
    and b: "\<forall>t < n_tasks s. task_hub s t < n_hubs s \<and>
         (\<not> task_done s t \<longrightarrow> producer s (task_hub s t) = Some t)"
    and c: "\<forall>(k, h) \<in> set (STREAM_HUBS s). h < n_hubs s"
    using ok by (simp_all add: registry_ok_def)
  show ?thesis unfolding spawn(2) registry_ok_def
    using a b c dead h by (simp add: less_Suc_eq) (metis less_irrefl)
qed

lemma hub_start_registry:
  "STREAM_HUBS (hub_start hid s) = STREAM_HUBS s" "n_hubs (hub_start hid s) = n_hubs s"
  by (simp_all add: hub_start_def)

lemma created_ok:
  assumes ok: "registry_ok s" and k: "map_of (STREAM_HUBS s) key = None"
  shows "registry_ok (s\<lparr>STREAM_HUBS := AList.update key (n_hubs s) (STREAM_HUBS s),
                         n_hubs := Suc (n_hubs s),
                         producer := (producer s)(n_hubs s := None)\<rparr>)"
proof -
  have a: "\<forall>h t. producer s h = Some t \<longrightarrow> t < n_tasks s \<and> task_hub s t = h"
    and b: "\<forall>t < n_tasks s. task_hub s t < n_hubs s \<and>
         (\<not> task_done s t \<longrightarrow> producer s (task_hub s t) = Some t)"
    and c: "\<forall>(k, h) \<in> set (STREAM_HUBS s). h < n_hubs s"
    using ok by (simp_all add: registry_ok_def)
  have u: "set (AList.update key (n_hubs s) (STREAM_HUBS s)) \<subseteq> insert (key, n_hubs s) (set (STREAM_HUBS s))"
    by (induction "STREAM_HUBS s") (auto simp: set_update_subset)
  have c': "\<forall>(k, h) \<in> set (AList.update key (n_hubs s) (STREAM_HUBS s)). h < Suc (n_hubs s)"
    using c u by fastforce
  show ?thesis unfolding registry_ok_def using a b c' by (auto simp: less_Suc_eq)
qed

lemma ok_get_or_create:
  assumes "registry_ok s"
  shows "registry_ok (snd (get_or_create_hub f c m s))"
proof (cases "map_of (STREAM_HUBS s) (hub_key f c m)")
  case None
  from created_ok[OF assms None] show ?thesis
    by (simp add: get_or_create_hub_def Let_def None ok_start)
next
  case (Some hid)
  then have "(hub_key f c m, hid) \<in> set (STREAM_HUBS s)" by (rule map_of_SomeD)
  with assms have "hid < n_hubs s" by (auto simp: registry_ok_def)
  with assms show ?thesis by (simp add: get_or_create_hub_def Some ok_start)
qed

lemma ok_step: "registry_ok s \<Longrightarrow> registry_ok (registry_step ev s)"
proof (cases ev)
  case (Request f c m)
  assume "registry_ok s" then show ?thesis by (simp add: Request ok_get_or_create)
next
  case (Attach hid)
  assume "registry_ok s" then show ?thesis by (simp add: Attach ok_start)
next
  case (TaskEnds t)
  assume "registry_ok s" then show ?thesis by (auto simp: TaskEnds registry_ok_def)
qed

lemma ok_run: "registry_ok s \<Longrightarrow> registry_ok (registry_run evs s)"
  unfolding registry_run_def by (induction evs arbitrary: s) (simp_all add: ok_step)

lemma all_equal_short: "distinct xs \<Longrightarrow> \<forall>x \<in> set xs. x = a \<Longrightarrow> length xs \<le> 1"
proof (cases xs)
  case Nil then show ?thesis by simp
next
  case (Cons x ys)
  assume d: "distinct xs" and e: "\<forall>x \<in> set xs. x = a"
  have "ys = []"
  proof (cases ys)
    case Nil then show ?thesis .
  next
    case (Cons y zs)
    with \<open>xs = x # ys\<close> d e show ?thesis by auto
  qed
  with Cons show ?thesis by simp
qed

lemma live_is_producer:
  assumes "registry_ok s" "x \<in> set (live_tasks s hid)"
  shows "producer s hid = Some x"
proof -
  from assms(2) have x: "x < n_tasks s" "task_hub s x = hid" "\<not> task_done s x"
    by (simp_all add: live_tasks_def)
  from assms(1) have "\<forall>t < n_tasks s. \<not> task_done s t \<longrightarrow> producer s (task_hub s t) = Some t"
    by (simp add: registry_ok_def)
  with x show ?thesis by blast
qed

lemma live_at_most_one:
  assumes "registry_ok s"
  shows "length (live_tasks s hid) \<le> 1"
proof (cases "live_tasks s hid")
  case Nil then show ?thesis by simp
next
  case (Cons a as)
  then have "a \<in> set (live_tasks s hid)" by simp
  from live_is_producer[OF assms this] have p: "producer s hid = Some a" .
  have "\<forall>x \<in> set (live_tasks s hid). x = a"
    using live_is_producer[OF assms] p by fastforce
  moreover have "distinct (live_tasks s hid)" by (simp add: live_tasks_def)
  ultimately show ?thesis by (rule all_equal_short[rotated])
qed

lemma live_running:
  assumes "registry_ok s" "producer s hid = Some t" "\<not> task_done s t"
  shows "live_tasks s hid = [t]"
proof -
  from assms(1,2) have "t < n_tasks s \<and> task_hub s t = hid" by (simp add: registry_ok_def)
  with assms(3) have m: "t \<in> set (live_tasks s hid)" by (simp add: live_tasks_def)
  show ?thesis
  proof (cases "live_tasks s hid")
    case Nil with m show ?thesis by simp
  next
    case (Cons a as)
    from live_at_most_one[OF assms(1), of hid] Cons have "as = []" by simp
    with Cons m show ?thesis by simp
  qed
qed

lemma start_live:
  "\<exists>t. producer (hub_start hid s) hid = Some t \<and> \<not> task_done (hub_start hid s) t"
proof (cases rule: hub_start_cases[of s hid])
  case (running t) then show ?thesis by auto
next
  case spawn show ?thesis unfolding spawn(2) by simp
qed

lemma spawned_fresh:
  "spawned_tasks (s\<lparr>producer := p, task_hub := (task_hub s)(n_tasks s := h),
       task_done := d, n_tasks := Suc (n_tasks s)\<rparr>) hid =
     spawned_tasks s hid @ (if h = hid then [n_tasks s] else [])"
proof -
  have "filter (\<lambda>t. ((task_hub s)(n_tasks s := h)) t = hid) [0..<n_tasks s]
      = filter (\<lambda>t. task_hub s t = hid) [0..<n_tasks s]"
    by (rule filter_cong) auto
  then show ?thesis by (simp add: spawned_tasks_def)
qed

lemma start_other:
  assumes "hid' \<noteq> hid" "t < n_tasks s"
  shows "producer (hub_start hid' s) hid = producer s hid"
    and "task_done (hub_start hid' s) t = task_done s t"
    and "spawned_tasks (hub_start hid' s) hid = spawned_tasks s hid"
proof -
  show "producer (hub_start hid' s) hid = producer s hid"
    using assms(1) by (simp add: hub_start_def)
  show "task_done (hub_start hid' s) t = task_done s t"
    using assms(2) by (simp add: hub_start_def)
  show "spawned_tasks (hub_start hid' s) hid = spawned_tasks s hid"
  proof (cases rule: hub_start_cases[of s hid'])
    case (running u) then show ?thesis by simp
  next
    case spawn
    show ?thesis unfolding spawn(2) using assms(1) by (simp add: spawned_fresh)
  qed
qed

lemma spawned_registry:
  "spawned_tasks (s\<lparr>STREAM_HUBS := r, n_hubs := n, producer := p\<rparr>) hid = spawned_tasks s hid"
  by (simp add: spawned_tasks_def)

lemma running_hub_exists:
  assumes "registry_ok s" "producer s hid = Some t"
  shows "t < n_tasks s" "hid < n_hubs s"
proof -
  from assms have t: "t < n_tasks s \<and> task_hub s t = hid" by (simp add: registry_ok_def)
  then show "t < n_tasks s" by simp
  from assms(1) have "\<forall>t < n_tasks s. task_hub s t < n_hubs s" by (simp add: registry_ok_def)
  with t show "hid < n_hubs s" by blast
qed

lemma keep_running_start:
  assumes "registry_ok s" "producer s hid = Some t" "\<not> task_done s t"
  shows "producer (hub_start hid' s) hid = Some t \<and> \<not> task_done (hub_start hid' s) t
    \<and> spawned_tasks (hub_start hid' s) hid = spawned_tasks s hid"
proof (cases "hid' = hid")
  case True
  with assms hub_start_running[OF assms(2,3)] show ?thesis by simp
next
  case False
  from start_other[OF False running_hub_exists(1)[OF assms(1,2)]] assms(2,3) show ?thesis by simp
qed

lemma keep_running_step:
  assumes ok: "registry_ok s" and p: "producer s hid = Some t" and d: "\<not> task_done s t"
    and e: "no_task_ends ev"
  shows "producer (registry_step ev s) hid = Some t \<and> \<not> task_done (registry_step ev s) t
    \<and> spawned_tasks (registry_step ev s) hid = spawned_tasks s hid"
proof (cases ev)
  case (Request f c m)
  show ?thesis
  proof (cases "map_of (STREAM_HUBS s) (hub_key f c m)")
    case (Some h)
    with keep_running_start[OF ok p d, of h] show ?thesis
      by (simp add: Request get_or_create_hub_def)
  next
    case None
    let ?s = "s\<lparr>STREAM_HUBS := AList.update (hub_key f c m) (n_hubs s) (STREAM_HUBS s),
                         n_hubs := Suc (n_hubs s),
                         producer := (producer s)(n_hubs s := None)\<rparr>"
    have ne: "hid \<noteq> n_hubs s" using running_hub_exists(2)[OF ok p] by simp
    have ok': "registry_ok ?s" by (rule created_ok[OF ok None])
    have p': "producer ?s hid = Some t" using p ne by simp
    have d': "\<not> task_done ?s t" using d by simp
    from keep_running_start[OF ok' p' d', of "n_hubs s"] show ?thesis
      by (simp add: Request get_or_create_hub_def None Let_def spawned_registry)
  qed
next
  case (Attach h)
  with keep_running_start[OF ok p d, of h] p d show ?thesis by simp
next
  case (TaskEnds u)
  with e show ?thesis by simp
qed

lemma keep_running_run:
  assumes "registry_ok s" "producer s hid = Some t" "\<not> task_done s t"
    "list_all no_task_ends evs"
  shows "producer (registry_run evs s) hid = Some t \<and> \<not> task_done (registry_run evs s) t
    \<and> spawned_tasks (registry_run evs s) hid = spawned_tasks s hid"
  using assms unfolding registry_run_def
proof (induction evs arbitrary: s)
  case Nil then show ?case by simp
next
  case (Cons ev evs)
  from Cons.prems(4) have e: "no_task_ends ev" and r: "list_all no_task_ends evs" by simp_all
  from keep_running_step[OF Cons.prems(1-3) e]
  have k: "producer (registry_step ev s) hid = Some t" "\<not> task_done (registry_step ev s) t"
    "spawned_tasks (registry_step ev s) hid = spawned_tasks s hid" by auto
  from Cons.IH[OF ok_step[OF Cons.prems(1)] k(1,2) r] k(3) show ?case by simp
qed

lemma hub_stable_step:
  assumes "map_of (STREAM_HUBS s) key = Some hid"
  shows "map_of (STREAM_HUBS (registry_step ev s)) key = Some hid"
proof (cases ev)
  case (Request f c m)
  show ?thesis
  proof (cases "map_of (STREAM_HUBS s) (hub_key f c m)")
    case (Some h)
    with assms show ?thesis by (simp add: Request get_or_create_hub_def hub_start_registry)
  next
    case None
    with assms have "hub_key f c m \<noteq> key" by auto
    with assms None show ?thesis
      by (simp add: Request get_or_create_hub_def Let_def hub_start_registry update_conv')
  qed
next
  case (Attach h) with assms show ?thesis by (simp add: hub_start_registry)
next
  case (TaskEnds u) with assms show ?thesis by simp
qed

lemma hub_stable_run:
  "map_of (STREAM_HUBS s) key = Some hid \<Longrightarrow>
   map_of (STREAM_HUBS (registry_run evs s)) key = Some hid"
  unfolding registry_run_def
  by (induction evs arbitrary: s) (simp_all add: hub_stable_step)

lemma request_registers:
  "map_of (STREAM_HUBS (snd (get_or_create_hub f c m s))) (hub_key f c m)
     = Some (fst (get_or_create_hub f c m s))"
  by (cases "map_of (STREAM_HUBS s) (hub_key f c m)")
    (simp_all add: get_or_create_hub_def Let_def hub_start_registry update_conv')

lemma request_known:
  "map_of (STREAM_HUBS s) (hub_key f c m) = Some hid \<Longrightarrow>
   get_or_create_hub f c m s = (hid, hub_start hid s)"
  by (simp add: get_or_create_hub_def)

lemma request_live:
  "\<exists>t. producer (snd (get_or_create_hub f c m s)) (fst (get_or_create_hub f c m s)) = Some t
     \<and> \<not> task_done (snd (get_or_create_hub f c m s)) t"
  using start_live
  by (cases "map_of (STREAM_HUBS s) (hub_key f c m)") (simp_all add: get_or_create_hub_def Let_def)

lemma registry_run_append: "registry_run (evs @ evs2) s = registry_run evs2 (registry_run evs s)"
  by (simp add: registry_run_def)

text \<open>
  Claim C5. From start-up on, whatever requests arrive, consumers attach and producer
  tasks end, every hub has at most one producer task that is not done. A resource identity
  keeps the hub the registry first gave it, so every request for the identity gets that
  hub. After a request, for as long as no producer task ends, the hub of the identity has
  exactly one live producer task, no further task is created for it however many requests
  and attaching consumers follow, and one more request for the identity returns the same
  hub and changes nothing.
\<close>

theorem one_producer_per_identity:
  "length (live_tasks (registry_run evs registry_init) hid) \<le> 1
   \<and> (map_of (STREAM_HUBS (registry_run evs registry_init)) key = Some hid \<longrightarrow>
        map_of (STREAM_HUBS (registry_run (evs @ evs2) registry_init)) key = Some hid)
   \<and> (list_all no_task_ends evs2 \<longrightarrow>
        get_or_create_hub f c m
            (registry_run evs2 (snd (get_or_create_hub f c m (registry_run evs registry_init))))
          = (fst (get_or_create_hub f c m (registry_run evs registry_init)),
             registry_run evs2 (snd (get_or_create_hub f c m (registry_run evs registry_init))))
        \<and> length (live_tasks
              (registry_run evs2 (snd (get_or_create_hub f c m (registry_run evs registry_init))))
              (fst (get_or_create_hub f c m (registry_run evs registry_init)))) = 1
        \<and> spawned_tasks
              (registry_run evs2 (snd (get_or_create_hub f c m (registry_run evs registry_init))))
              (fst (get_or_create_hub f c m (registry_run evs registry_init)))
            = spawned_tasks (snd (get_or_create_hub f c m (registry_run evs registry_init)))
                (fst (get_or_create_hub f c m (registry_run evs registry_init))))"
proof -
  let ?s = "registry_run evs registry_init"
  let ?h = "fst (get_or_create_hub f c m ?s)"
  let ?s1 = "snd (get_or_create_hub f c m ?s)"
  let ?s2 = "registry_run evs2 ?s1"
  have ok: "registry_ok ?s" by (rule ok_run[OF ok_init])
  have ok1: "registry_ok ?s1" by (rule ok_get_or_create[OF ok])
  have a: "length (live_tasks ?s hid) \<le> 1" by (rule live_at_most_one[OF ok])
  have b: "map_of (STREAM_HUBS ?s) key = Some hid \<longrightarrow>
        map_of (STREAM_HUBS (registry_run (evs @ evs2) registry_init)) key = Some hid"
    by (simp add: registry_run_append hub_stable_run)
  have c: "get_or_create_hub f c m ?s2 = (?h, ?s2) \<and> length (live_tasks ?s2 ?h) = 1
      \<and> spawned_tasks ?s2 ?h = spawned_tasks ?s1 ?h" if n: "list_all no_task_ends evs2"
  proof -
    from request_live[of f c m ?s] obtain t where
      p: "producer ?s1 ?h = Some t" and d: "\<not> task_done ?s1 t" by blast
    from keep_running_run[OF ok1 p d n]
    have p2: "producer ?s2 ?h = Some t" and d2: "\<not> task_done ?s2 t"
      and sp: "spawned_tasks ?s2 ?h = spawned_tasks ?s1 ?h" by auto
    have ok2: "registry_ok ?s2" by (rule ok_run[OF ok1])
    have "map_of (STREAM_HUBS ?s2) (hub_key f c m) = Some ?h"
      by (rule hub_stable_run[OF request_registers])
    from request_known[OF this] hub_start_running[OF p2 d2]
    have g: "get_or_create_hub f c m ?s2 = (?h, ?s2)" by simp
    from live_running[OF ok2 p2 d2] have "length (live_tasks ?s2 ?h) = 1" by simp
    with g sp show ?thesis by simp
  qed
  from a b c show ?thesis by blast
qed

theorem one_producer_per_identity_witness:
  "live_tasks (registry_run [Attach 0, Request ''a'' None None, Request ''a'' None None]
        (snd (get_or_create_hub ''a'' None None (registry_run [] registry_init)))) 0 = [0]
   \<and> spawned_tasks (registry_run [Attach 0, Request ''a'' None None, Request ''a'' None None]
        (snd (get_or_create_hub ''a'' None None (registry_run [] registry_init)))) 0 = [0]
   \<and> map_of (STREAM_HUBS (registry_run ([Request ''a'' None None] @ [Request ''b'' None None])
        registry_init)) (FileKey ''a'') = Some 0"
proof -
  have n: "list_all no_task_ends [Attach 0, Request ''a'' None None, Request ''a'' None None]"
    by simp
  have k: "map_of (STREAM_HUBS (registry_run [Request ''a'' None None] registry_init)) (FileKey ''a'')
      = Some 0"
    by (simp add: registry_run_def get_or_create_hub_def hub_key_def hub_start_def
        registry_init_def Let_def)
  have s1: "snd (get_or_create_hub ''a'' None None (registry_run [] registry_init))
      = registry_init\<lparr>STREAM_HUBS := [(FileKey ''a'', 0)], n_hubs := 1,
          producer := (producer registry_init)(0 := Some 0),
          task_hub := (task_hub registry_init)(0 := 0),
          task_done := (task_done registry_init)(0 := False), n_tasks := 1\<rparr>"
    by (simp add: registry_run_def get_or_create_hub_def hub_key_def hub_start_def
        registry_init_def Let_def)
  have f: "fst (get_or_create_hub ''a'' None None (registry_run [] registry_init)) = 0"
    by (simp add: registry_run_def get_or_create_hub_def hub_key_def hub_start_def
        registry_init_def Let_def)
  have sp: "spawned_tasks (snd (get_or_create_hub ''a'' None None (registry_run [] registry_init))) 0 = [0]"
    unfolding s1 by (simp add: spawned_tasks_def registry_init_def)
  from one_producer_per_identity[of "[]" 0 "FileKey ''a''"
      "[Attach 0, Request ''a'' None None, Request ''a'' None None]" "''a''" None None]
  have l: "length (live_tasks (registry_run [Attach 0, Request ''a'' None None, Request ''a'' None None]
        (snd (get_or_create_hub ''a'' None None (registry_run [] registry_init)))) 0) = 1"
    and q: "spawned_tasks (registry_run [Attach 0, Request ''a'' None None, Request ''a'' None None]
        (snd (get_or_create_hub ''a'' None None (registry_run [] registry_init)))) 0 = [0]"
    using n f sp by simp_all
  have l0: "live_tasks (registry_run [Attach 0, Request ''a'' None None, Request ''a'' None None]
        (snd (get_or_create_hub ''a'' None None (registry_run [] registry_init)))) 0 = [0]"
    unfolding s1
    by (simp add: registry_run_def get_or_create_hub_def hub_key_def hub_start_def
        registry_init_def live_tasks_def Let_def)
  from one_producer_per_identity[of "[Request ''a'' None None]" 0 "FileKey ''a''"
      "[Request ''b'' None None]" "''a''" None None] k
  have "map_of (STREAM_HUBS (registry_run ([Request ''a'' None None] @ [Request ''b'' None None])
        registry_init)) (FileKey ''a'') = Some 0" by blast
  with l0 q show ?thesis by blast
qed

end
